theory Spec2Isabelle
  imports Main "HOL-Library.Word"
begin

section \<open>Strings\<close>

text \<open>
  \<^verbatim>\<open>filename_t\<close> is \<^verbatim>\<open>std::string\<close>: a \<^typ>\<open>string\<close>. Positions are
  \<^verbatim>\<open>size_t\<close> values, modelled as naturals below \<open>2 ^ 64\<close> with the wrap-around
  written out where the source adds to one. \<^verbatim>\<open>npos\<close> is the largest \<^verbatim>\<open>size_t\<close>.
\<close>

definition npos :: nat where
  "npos = 2 ^ 64 - 1"

text \<open>
  \<^verbatim>\<open>s.find_last_of(c)\<close>: the position of the last \<open>c\<close> in \<open>s\<close>, \<open>npos\<close> when there
  is none. The scan goes left to right and keeps the last match seen.
\<close>

fun find_last_from :: "char \<Rightarrow> string \<Rightarrow> nat \<Rightarrow> nat \<Rightarrow> nat" where
  "find_last_from c [] i found = found"
| "find_last_from c (x # xs) i found = find_last_from c xs (Suc i) (if x = c then i else found)"

definition find_last_of :: "string \<Rightarrow> char \<Rightarrow> nat" where
  "find_last_of s c = find_last_from c s 0 npos"

text \<open>
  \<^verbatim>\<open>s.substr(pos, count)\<close>. The one-argument form \<^verbatim>\<open>s.substr(pos)\<close> is
  \<open>substr s pos npos\<close>. The library throws \<^verbatim>\<open>std::out_of_range\<close> for
  \<open>pos > length s\<close>; lemma \<open>split_pos_in_range\<close> below shows that the constructors
  never call it so.
\<close>

definition substr :: "string \<Rightarrow> nat \<Rightarrow> nat \<Rightarrow> string" where
  "substr s pos count = take count (drop pos s)"

text \<open>\<^verbatim>\<open>ndx + 1\<close> on \<^verbatim>\<open>size_t\<close>.\<close>

definition size_t_succ :: "nat \<Rightarrow> nat" where
  "size_t_succ n = (n + 1) mod 2 ^ 64"

text \<open>Decimal digits, as the \<^verbatim>\<open>{}\<close> and \<^verbatim>\<open>{:0Nd}\<close> fields of the format strings print them.\<close>

definition digit_char :: "nat \<Rightarrow> char" where
  "digit_char d = ''0123456789'' ! (d mod 10)"

function show_nat :: "nat \<Rightarrow> string" where
  "show_nat n = (if n < 10 then [digit_char n] else show_nat (n div 10) @ [digit_char (n mod 10)])"
  by pat_completeness auto
termination
  by (relation "measure id") auto

declare show_nat.simps [simp del]

text \<open>\<^verbatim>\<open>{:0Nd}\<close>: the sign first, then zeros up to the width, then the digits.\<close>

definition zero_pad :: "nat \<Rightarrow> string \<Rightarrow> string" where
  "zero_pad w s = replicate (w - length s) CHR ''0'' @ s"

definition fmt_0d :: "nat \<Rightarrow> int \<Rightarrow> string" where
  "fmt_0d w n = (if n < 0 then CHR ''-'' # zero_pad (w - 1) (show_nat (nat (- n)))
                 else zero_pad w (show_nat (nat n)))"

section \<open>The constructors' split of the path into base and extension\<close>

text \<open>
  \<^verbatim>\<open>rotating_file_sink::rotating_file_sink(filename, max_size, max_files)\<close>, lines 78-92:
  the pair \<open>(_base_filename, _extension)\<close> it stores.
\<close>

definition rotating_split :: "string \<Rightarrow> string \<times> string" where
  "rotating_split filename =
     (let ndx = find_last_of filename CHR ''.'';
          ndxs1 = find_last_of filename (CHR 0x5C);
          ndxs2 = find_last_of filename CHR ''/''
      in if ndx = npos \<and> (ndx < ndxs1 \<or> ndx < ndxs2)
         then (filename, ''log'')
         else (substr filename 0 ndx, substr filename (size_t_succ ndx) npos))"

text \<open>
  \<^verbatim>\<open>daily_file_sink::daily_file_sink(filename, rotation_hour, rotation_minute)\<close>,
  lines 247-261. The source compares \<open>ndxs2\<close> twice and never \<open>ndxs1\<close>.
\<close>

definition daily_split :: "string \<Rightarrow> string \<times> string" where
  "daily_split filename =
     (let ndx = find_last_of filename CHR ''.'';
          ndxs1 = find_last_of filename (CHR 0x5C);
          ndxs2 = find_last_of filename CHR ''/''
      in if ndx = npos \<and> (ndxs2 < ndx \<or> ndxs2 < ndx)
         then (filename, ''txt'')
         else (substr filename 0 ndx, substr filename (size_t_succ ndx) npos))"

section \<open>Exceptions\<close>

text \<open>
  Modelled from the spec: the exception class \<^verbatim>\<open>spdlog_ex\<close> is declared outside this file.
  The sinks construct it with a message, or with a message and \<^verbatim>\<open>errno\<close>; the spec's
  ConfigurationError, FileOpenError and RotationError are all this one class.
\<close>

datatype spdlog_ex = Spdlog_ex string | Spdlog_ex_errno string int

section \<open>The file capability\<close>

text \<open>
  Modelled from the spec: the file capability (\<^verbatim>\<open>details::file_helper\<close> and the C
  library under it) is not part of this file. The spec's interface is
  \<^verbatim>\<open>open(path, truncate)\<close>, \<^verbatim>\<open>reopen(truncate)\<close>, \<^verbatim>\<open>write(bytes)\<close>, \<^verbatim>\<open>flush()\<close>,
  \<^verbatim>\<open>close()\<close>, \<^verbatim>\<open>size()\<close>, and the static \<^verbatim>\<open>exists(path)\<close>,
  \<^verbatim>\<open>remove(path) -> ok|osError\<close>, \<^verbatim>\<open>rename(src, dst) -> ok|osError\<close>.

  The file system is a map from paths to contents. Which calls fail is the environment's
  choice: \<open>remove_fails\<close>, \<open>rename_fails\<close> and \<open>open_fails\<close> give the error code a call on
  a path ends with, 0 for success. A failing call changes no file and sets \<open>errno\<close>.
  \<open>calls\<close> records every modifying call issued, in order.
\<close>

datatype syscall =
    Sys_open string bool
  | Sys_remove string
  | Sys_rename string string
  | Sys_write string string
  | Sys_flush string

record os_state =
  files :: "string \<rightharpoonup> string"
  errno :: int
  remove_fails :: "string \<Rightarrow> int"
  rename_fails :: "string \<Rightarrow> string \<Rightarrow> int"
  open_fails :: "string \<Rightarrow> int"
  calls :: "syscall list"

definition ENOENT :: int where
  "ENOENT = 2"

definition file_exists :: "os_state \<Rightarrow> string \<Rightarrow> bool" where
  "file_exists os p = (files os p \<noteq> None)"

text \<open>\<^verbatim>\<open>remove(path)\<close>: the return code (0 for success) and the new state.\<close>

definition os_remove :: "os_state \<Rightarrow> string \<Rightarrow> int \<times> os_state" where
  "os_remove os p =
     (let os1 = os\<lparr>calls := calls os @ [Sys_remove p]\<rparr>
      in if remove_fails os p \<noteq> 0 then (- 1, os1\<lparr>errno := remove_fails os p\<rparr>)
         else if files os p = None then (- 1, os1\<lparr>errno := ENOENT\<rparr>)
         else (0, os1\<lparr>files := (files os)(p := None)\<rparr>))"

text \<open>\<^verbatim>\<open>rename(src, dst)\<close>: \<open>dst\<close> takes the content of \<open>src\<close>, and \<open>src\<close> is gone.\<close>

definition os_rename :: "os_state \<Rightarrow> string \<Rightarrow> string \<Rightarrow> int \<times> os_state" where
  "os_rename os src dst =
     (let os1 = os\<lparr>calls := calls os @ [Sys_rename src dst]\<rparr>
      in if rename_fails os src dst \<noteq> 0 then (- 1, os1\<lparr>errno := rename_fails os src dst\<rparr>)
         else if files os src = None then (- 1, os1\<lparr>errno := ENOENT\<rparr>)
         else if src = dst then (0, os1)
         else (0, os1\<lparr>files := (files os)(dst := files os src, src := None)\<rparr>))"

text \<open>The helper object: the name of its file and whether the handle is open.\<close>

record file_helper =
  fh_filename :: string
  fh_is_open :: bool

definition file_helper_init :: file_helper where
  "file_helper_init = \<lparr>fh_filename = [], fh_is_open = False\<rparr>"

definition fh_close :: "file_helper \<Rightarrow> file_helper" where
  "fh_close fh = fh\<lparr>fh_is_open := False\<rparr>"

text \<open>
  \<^verbatim>\<open>open(path, truncate)\<close>: closes the handle held, then opens \<open>path\<close>, creating the file
  when it is absent and emptying it when \<open>trunc\<close> is set; otherwise the content stays
  and writes append. A failure is the spec's FileOpenError.
\<close>

definition fh_open ::
  "file_helper \<Rightarrow> string \<Rightarrow> bool \<Rightarrow> os_state \<Rightarrow> spdlog_ex option \<times> file_helper \<times> os_state" where
  "fh_open fh fname trunc os =
     (let fh1 = (fh_close fh)\<lparr>fh_filename := fname\<rparr>;
          os1 = os\<lparr>calls := calls os @ [Sys_open fname trunc]\<rparr>
      in if open_fails os fname \<noteq> 0
         then (Some (Spdlog_ex_errno (''Failed opening file '' @ fname @ '' for writing'')
                 (open_fails os fname)),
               fh1, os1\<lparr>errno := open_fails os fname\<rparr>)
         else (None, fh1\<lparr>fh_is_open := True\<rparr>,
               os1\<lparr>files := (files os)(fname \<mapsto>
                 (if trunc then [] else case files os fname of None \<Rightarrow> [] | Some c \<Rightarrow> c))\<rparr>))"

definition fh_reopen ::
  "file_helper \<Rightarrow> bool \<Rightarrow> os_state \<Rightarrow> spdlog_ex option \<times> file_helper \<times> os_state" where
  "fh_reopen fh trunc os = fh_open fh (fh_filename fh) trunc os"

text \<open>\<^verbatim>\<open>write(bytes)\<close>: appends to the open file. A closed helper cannot write.\<close>

definition fh_write :: "file_helper \<Rightarrow> string \<Rightarrow> os_state \<Rightarrow> spdlog_ex option \<times> os_state" where
  "fh_write fh bytes os =
     (if fh_is_open fh
      then (None, os\<lparr>files := (files os)(fh_filename fh \<mapsto>
                     (case files os (fh_filename fh) of None \<Rightarrow> [] | Some c \<Rightarrow> c) @ bytes),
                   calls := calls os @ [Sys_write (fh_filename fh) bytes]\<rparr>)
      else (Some (Spdlog_ex (''Failed writing to file '' @ fh_filename fh)), os))"

definition fh_flush :: "file_helper \<Rightarrow> os_state \<Rightarrow> os_state" where
  "fh_flush fh os = os\<lparr>calls := calls os @ [Sys_flush (fh_filename fh)]\<rparr>"

text \<open>\<^verbatim>\<open>size()\<close>, a \<^verbatim>\<open>size_t\<close>.\<close>

definition fh_size :: "file_helper \<Rightarrow> os_state \<Rightarrow> 64 word" where
  "fh_size fh os = of_nat (length (case files os (fh_filename fh) of None \<Rightarrow> [] | Some c \<Rightarrow> c))"

section \<open>The rotating file sink (rotation by size)\<close>

text \<open>
  The members of \<^verbatim>\<open>rotating_file_sink\<close>. \<open>_max_size\<close> and \<open>_current_size\<close> are \<^verbatim>\<open>size_t\<close>
  values that the sink adds to: 64-bit words. \<open>_max_files\<close> is a \<^verbatim>\<open>size_t\<close> that is only
  counted down to 0, a natural number here.
\<close>

record rotating_file_sink =
  r_extension :: string
  r_base_filename :: string
  r_max_size :: "64 word"
  r_max_files :: nat
  r_current_size :: "64 word"
  r_file_helper :: file_helper

text \<open>\<^verbatim>\<open>msg.formatted.size()\<close>: a log message is its formatted bytes.\<close>

definition msg_size :: "string \<Rightarrow> 64 word" where
  "msg_size msg = of_nat (length msg)"

text \<open>The private \<^verbatim>\<open>calc_filename(filename, index, extension)\<close>, lines 146-154.\<close>

definition calc_filename :: "string \<Rightarrow> nat \<Rightarrow> string \<Rightarrow> string" where
  "calc_filename filename index extension =
     (if index \<noteq> 0 then filename @ ''.'' @ show_nat index @ ''.'' @ extension
      else filename @ ''.'' @ extension)"

text \<open>
  One pass of the loop body of \<^verbatim>\<open>_rotate\<close>, lines 167-180, at index \<open>i\<close>: the exception
  thrown, if any, and the state of the file system the body leaves.
\<close>

definition rotate_step :: "string \<Rightarrow> string \<Rightarrow> nat \<Rightarrow> os_state \<Rightarrow> spdlog_ex option \<times> os_state" where
  "rotate_step base ext i os =
     (let src = calc_filename base (i - 1) ext;
          target = calc_filename base i ext;
          (rm, os1) = (if file_exists os target then os_remove os target else (0, os))
      in if rm \<noteq> 0
         then (Some (Spdlog_ex_errno (''rotating_file_sink: failed removing '' @ target)
                 (errno os1)), os1)
         else if file_exists os1 src
         then (let (rn, os2) = os_rename os1 src target
               in if rn \<noteq> 0
                  then (Some (Spdlog_ex_errno
                          (''rotating_file_sink: failed renaming '' @ src @ '' to '' @ target)
                          (errno os2)), os2)
                  else (None, os2))
         else (None, os1))"

text \<open>\<^verbatim>\<open>for (auto i = _max_files; i > 0; --i)\<close>.\<close>

fun rotate_loop :: "string \<Rightarrow> string \<Rightarrow> nat \<Rightarrow> os_state \<Rightarrow> spdlog_ex option \<times> os_state" where
  "rotate_loop base ext 0 os = (None, os)"
| "rotate_loop base ext (Suc n) os =
     (case rotate_step base ext (Suc n) os of
        (Some e, os1) \<Rightarrow> (Some e, os1)
      | (None, os1) \<Rightarrow> rotate_loop base ext n os1)"

text \<open>
  \<^verbatim>\<open>_rotate\<close>, lines 161-183. An exception leaves the sink with its helper closed.
\<close>

definition rotate ::
  "rotating_file_sink \<Rightarrow> os_state \<Rightarrow> spdlog_ex option \<times> rotating_file_sink \<times> os_state" where
  "rotate s os =
     (let s1 = s\<lparr>r_file_helper := fh_close (r_file_helper s)\<rparr>
      in case rotate_loop (r_base_filename s1) (r_extension s1) (r_max_files s1) os of
           (Some e, os1) \<Rightarrow> (Some e, s1, os1)
         | (None, os1) \<Rightarrow>
             (case fh_reopen (r_file_helper s1) True os1 of
                (ex, fh, os2) \<Rightarrow> (ex, s1\<lparr>r_file_helper := fh\<rparr>, os2)))"

definition rotating_write ::
  "rotating_file_sink \<Rightarrow> string \<Rightarrow> os_state \<Rightarrow> spdlog_ex option \<times> rotating_file_sink \<times> os_state" where
  "rotating_write s msg os = (case fh_write (r_file_helper s) msg os of (ex, os1) \<Rightarrow> (ex, s, os1))"

text \<open>\<^verbatim>\<open>rotating_file_sink::_sink_it\<close>, lines 129-138.\<close>

definition rotating_sink_it ::
  "rotating_file_sink \<Rightarrow> string \<Rightarrow> os_state \<Rightarrow> spdlog_ex option \<times> rotating_file_sink \<times> os_state" where
  "rotating_sink_it s msg os =
     (let s1 = s\<lparr>r_current_size := r_current_size s + msg_size msg\<rparr>
      in if r_current_size s1 > r_max_size s1
         then (case rotate s1 os of
                 (Some e, s2, os2) \<Rightarrow> (Some e, s2, os2)
               | (None, s2, os2) \<Rightarrow> rotating_write (s2\<lparr>r_current_size := msg_size msg\<rparr>) msg os2)
         else rotating_write s1 msg os)"

definition rotating_flush :: "rotating_file_sink \<Rightarrow> os_state \<Rightarrow> os_state" where
  "rotating_flush s os = fh_flush (r_file_helper s) os"

text \<open>
  The constructor from a path, lines 71-95: \<open>Inl\<close> the exception that ends it, or \<open>Inr\<close>
  the sink constructed.
\<close>

definition rotating_file_sink_ctor ::
  "string \<Rightarrow> 64 word \<Rightarrow> nat \<Rightarrow> os_state \<Rightarrow> (spdlog_ex + rotating_file_sink) \<times> os_state" where
  "rotating_file_sink_ctor filename max_size max_files os =
     (let (base, ext) = rotating_split filename
      in case fh_open file_helper_init (calc_filename base 0 ext) False os of
           (Some e, fh, os1) \<Rightarrow> (Inl e, os1)
         | (None, fh, os1) \<Rightarrow>
             (Inr \<lparr>r_extension = ext, r_base_filename = base, r_max_size = max_size,
                   r_max_files = max_files, r_current_size = fh_size fh os1,
                   r_file_helper = fh\<rparr>, os1))"

text \<open>
  What the constructor establishes and every operation that returns normally keeps: the
  helper is open on the file of index 0.
\<close>

definition rotating_inv :: "rotating_file_sink \<Rightarrow> bool" where
  "rotating_inv s =
     (fh_is_open (r_file_helper s) \<and>
      fh_filename (r_file_helper s) = calc_filename (r_base_filename s) 0 (r_extension s))"

section \<open>Notions used to state the properties of the rotating sink\<close>

text \<open>The spec's \<open>indexed(parts, index)\<close> for the names a sink holds.\<close>

definition indexed :: "rotating_file_sink \<Rightarrow> nat \<Rightarrow> string" where
  "indexed s i = calc_filename (r_base_filename s) i (r_extension s)"

text \<open>Reading a decimal numeral back, to show that \<open>show_nat\<close> loses nothing.\<close>

definition digit_val :: "char \<Rightarrow> nat" where
  "digit_val c = of_char c - 48"

definition read_nat :: "string \<Rightarrow> nat" where
  "read_nat s = foldl (\<lambda>a c. 10 * a + digit_val c) 0 s"

text \<open>The calls that delete or move a file.\<close>

fun is_move :: "syscall \<Rightarrow> bool" where
  "is_move (Sys_remove p) = True"
| "is_move (Sys_rename a b) = True"
| "is_move c = False"

text \<open>A call that the environment lets succeed.\<close>

fun call_ok :: "os_state \<Rightarrow> syscall \<Rightarrow> bool" where
  "call_ok os (Sys_remove p) = (remove_fails os p = 0)"
| "call_ok os (Sys_rename a b) = (rename_fails os a b = 0)"
| "call_ok os (Sys_open p t) = (open_fails os p = 0)"
| "call_ok os c = True"

text \<open>
  The exceptions of lines 174 and 179 at index \<open>i\<close>: the message names the path (or both
  paths), the code is the one the failing call ended with.
\<close>

definition remove_failure :: "string \<Rightarrow> string \<Rightarrow> nat \<Rightarrow> os_state \<Rightarrow> spdlog_ex" where
  "remove_failure b e i os =
     Spdlog_ex_errno (''rotating_file_sink: failed removing '' @ calc_filename b i e)
       (remove_fails os (calc_filename b i e))"

definition rename_failure :: "string \<Rightarrow> string \<Rightarrow> nat \<Rightarrow> os_state \<Rightarrow> spdlog_ex" where
  "rename_failure b e i os =
     Spdlog_ex_errno (''rotating_file_sink: failed renaming '' @ calc_filename b (i - 1) e @
         '' to '' @ calc_filename b i e)
       (rename_fails os (calc_filename b (i - 1) e) (calc_filename b i e))"

text \<open>
  The pass that started in \<open>os\<close> ended in \<open>os'\<close> with exception \<open>ex\<close> at index \<open>i\<close>: the
  delete of \<open>indexed i\<close> or the rename of \<open>indexed (i - 1)\<close> to it failed with a code
  other than 0, and that call is the last one issued.
\<close>

definition failed_at :: "string \<Rightarrow> string \<Rightarrow> nat \<Rightarrow> os_state \<Rightarrow> spdlog_ex \<Rightarrow> os_state \<Rightarrow> bool" where
  "failed_at b e i os ex os' =
     ((ex = remove_failure b e i os \<and> remove_fails os (calc_filename b i e) \<noteq> 0 \<and>
       last (calls os') = Sys_remove (calc_filename b i e)) \<or>
      (ex = rename_failure b e i os \<and>
       rename_fails os (calc_filename b (i - 1) e) (calc_filename b i e) \<noteq> 0 \<and>
       last (calls os') = Sys_rename (calc_filename b (i - 1) e) (calc_filename b i e)))"

text \<open>
  The calls of a pass over indices \<open>n\<close> down to 1 in which nothing fails, read off the
  files present before it: the delete of \<open>indexed n\<close>, then the renames in descending
  order. No other target exists when its turn comes, its file having just been moved.
\<close>

definition rotation_calls :: "string \<Rightarrow> string \<Rightarrow> nat \<Rightarrow> os_state \<Rightarrow> syscall list" where
  "rotation_calls b e n os =
     (if n \<noteq> 0 \<and> files os (calc_filename b n e) \<noteq> None
      then [Sys_remove (calc_filename b n e)] else []) @
     map (\<lambda>i. Sys_rename (calc_filename b (i - 1) e) (calc_filename b i e))
       (filter (\<lambda>i. files os (calc_filename b (i - 1) e) \<noteq> None) (rev [1..<Suc n]))"

section \<open>Example states\<close>

text \<open>A file system with the given files in which no call fails.\<close>

definition no_faults :: "(string \<times> string) list \<Rightarrow> os_state" where
  "no_faults fs = \<lparr>files = map_of fs, errno = 0, remove_fails = (\<lambda>p. 0),
      rename_fails = (\<lambda>a b. 0), open_fails = (\<lambda>p. 0), calls = []\<rparr>"

definition app_os :: os_state where
  "app_os = no_faults [(''app.log'', ''0123456789''), (''app.1.log'', ''older''),
      (''app.2.log'', ''oldest'')]"

text \<open>The sink that \<^verbatim>\<open>rotating_file_sink("app.log", 16, 2)\<close> constructs in \<open>app_os\<close>.\<close>

definition app_sink :: rotating_file_sink where
  "app_sink = \<lparr>r_extension = ''log'', r_base_filename = ''app'', r_max_size = 16,
      r_max_files = 2, r_current_size = 10,
      r_file_helper = \<lparr>fh_filename = ''app.log'', fh_is_open = True\<rparr>\<rparr>"

text \<open>EACCES on every rename of the active file.\<close>

definition app_os_locked :: os_state where
  "app_os_locked = app_os\<lparr>rename_fails := (\<lambda>a b. if a = ''app.log'' then 13 else 0)\<rparr>"


section \<open>The calendar capability\<close>

text \<open>
  Modelled from the spec: the calendar capability (\<^verbatim>\<open>std::chrono::system_clock\<close>,
  \<^verbatim>\<open>details::os::localtime\<close>, \<^verbatim>\<open>std::mktime\<close>) is not part of this file. The spec has
  "calendar fields for a given instant" and the conversion back, both in the local time
  zone of the process. The model is the proleptic Gregorian calendar without leap seconds,
  seen from a time zone that is a parameter: an offset from UTC, and a daylight-saving rule
  that adds to it at some instants. A \<^verbatim>\<open>time_t\<close> counts seconds from 1970-01-01T00:00:00 UTC
  and is an integer; a \<^verbatim>\<open>time_point\<close> counts clock ticks (nanoseconds) from the same instant
  in a signed 64-bit integer, whose arithmetic wraps around.
\<close>

record tm =
  tm_sec :: int
  tm_min :: int
  tm_hour :: int
  tm_mday :: int
  tm_mon :: int
  tm_year :: int
  tm_isdst :: int

definition is_leap :: "int \<Rightarrow> bool" where
  "is_leap y = ((y mod 4 = 0 \<and> y mod 100 \<noteq> 0) \<or> y mod 400 = 0)"

definition year_len :: "int \<Rightarrow> int" where
  "year_len y = (if is_leap y then 366 else 365)"

text \<open>The year that day \<open>d\<close>, counted from the first day of year \<open>y\<close>, falls in, and the day in it.\<close>

function year_from :: "int \<Rightarrow> int \<Rightarrow> int \<times> int" where
  "year_from y d =
     (if d < 0 then year_from (y - 1) (d + year_len (y - 1))
      else if year_len y \<le> d then year_from (y + 1) (d - year_len y)
      else (y, d))"
  by pat_completeness auto
termination
  by (relation "measure (\<lambda>(y, d). if d < 0 then 400 + nat (- d) else nat d)")
    (auto simp: year_len_def split: if_splits)

declare year_from.simps [simp del]

text \<open>Months count from 0, as \<open>tm_mon\<close> does.\<close>

definition month_len :: "int \<Rightarrow> nat \<Rightarrow> int" where
  "month_len y m =
     (if m mod 12 = 1 \<and> is_leap y then 29
      else [31, 28, 31, 30, 31, 30, 31, 31, 30, 31, 30, 31] ! (m mod 12))"

function month_from :: "int \<Rightarrow> nat \<Rightarrow> int \<Rightarrow> nat \<times> int" where
  "month_from y m d =
     (if m < 11 \<and> month_len y m \<le> d then month_from y (Suc m) (d - month_len y m)
      else (m, d))"
  by pat_completeness auto
termination
  by (relation "measure (\<lambda>(y, m, d). 11 - m)") auto

declare month_from.simps [simp del]

primrec days_before_month :: "int \<Rightarrow> nat \<Rightarrow> int" where
  "days_before_month y 0 = 0"
| "days_before_month y (Suc m) = days_before_month y m + month_len y m"

definition leap_years_upto :: "int \<Rightarrow> int" where
  "leap_years_upto y = y div 4 - y div 100 + y div 400"

text \<open>The days from 1970-01-01 to the first day of year \<open>y\<close>.\<close>

definition days_before_year :: "int \<Rightarrow> int" where
  "days_before_year y = 365 * (y - 1970) + (leap_years_upto (y - 1) - leap_years_upto 1969)"

text \<open>The calendar fields of the instant in UTC.\<close>

definition gmtime :: "int \<Rightarrow> tm" where
  "gmtime t =
     (let (y, yday) = year_from 1970 (t div 86400);
          (m, mday) = month_from y 0 yday;
          r = t mod 86400
      in \<lparr>tm_sec = r mod 60, tm_min = r div 60 mod 60, tm_hour = r div 3600,
          tm_mday = mday + 1, tm_mon = int m, tm_year = y - 1900, tm_isdst = 0\<rparr>)"

text \<open>
  The instant of calendar fields read in UTC. Hours, minutes and seconds out of their
  ranges carry over, as the library normalises them; the day and month are taken as they
  are, which is all the sinks need.
\<close>

definition timegm :: "tm \<Rightarrow> int" where
  "timegm date =
     86400 * (days_before_year (tm_year date + 1900) +
              days_before_month (tm_year date + 1900) (nat (tm_mon date)) +
              (tm_mday date - 1)) +
     3600 * tm_hour date + 60 * tm_min date + tm_sec date"

text \<open>
  The time zone of the process: local time is \<open>std_offset\<close> seconds ahead of UTC, and
  \<open>dst_saving\<close> seconds more at the instants (of UTC) where \<open>in_dst\<close> holds.
\<close>

record zone =
  std_offset :: int
  dst_saving :: int
  in_dst :: "int \<Rightarrow> bool"

definition utc_offset :: "zone \<Rightarrow> int \<Rightarrow> int" where
  "utc_offset z t = std_offset z + (if in_dst z t then dst_saving z else 0)"

text \<open>\<^verbatim>\<open>localtime(t)\<close>: the calendar fields of the instant in the zone, and the flag
  that tells whether daylight saving is in effect then.\<close>

definition localtime :: "zone \<Rightarrow> int \<Rightarrow> tm" where
  "localtime z t = (gmtime (t + utc_offset z t))\<lparr>tm_isdst := (if in_dst z t then 1 else 0)\<rparr>"

text \<open>
  \<^verbatim>\<open>mktime(&tm)\<close>: the instant of calendar fields read in the zone. The fields are read
  with daylight saving in effect when \<open>tm_isdst\<close> is positive and without it otherwise, as
  the C library does with a flag that is not negative; the sinks pass the flag that
  \<^verbatim>\<open>localtime\<close> returned.
\<close>

definition mktime :: "zone \<Rightarrow> tm \<Rightarrow> int" where
  "mktime z date =
     timegm date - (std_offset z + (if 0 < tm_isdst date then dst_saving z else 0))"

text \<open>Three zones for the examples: UTC, and the rules of the year 2024 in New York
  (daylight saving from 2024-03-10T07:00:00Z to 2024-11-03T06:00:00Z) and in Berlin
  (from 2024-03-31T01:00:00Z to 2024-10-27T01:00:00Z).\<close>

definition utc :: zone where
  "utc = \<lparr>std_offset = 0, dst_saving = 0, in_dst = (\<lambda>t. False)\<rparr>"


definition berlin :: zone where
  "berlin = \<lparr>std_offset = 3600, dst_saving = 3600,
              in_dst = (\<lambda>t. 1711846800 \<le> t \<and> t < 1729990800)\<rparr>"

text \<open>The clock's resolution, and the wrap-around of a signed 64-bit count of ticks.\<close>

definition ticks_per_second :: int where
  "ticks_per_second = 1000000000"

definition wrap64 :: "int \<Rightarrow> int" where
  "wrap64 x = (x + 2 ^ 63) mod 2 ^ 64 - 2 ^ 63"

text \<open>\<^verbatim>\<open>system_clock::to_time_t\<close> truncates towards zero; \<^verbatim>\<open>system_clock::from_time_t\<close>
  multiplies in 64 bits.\<close>

definition to_time_t :: "int \<Rightarrow> int" where
  "to_time_t tp = (if tp < 0 then - ((- tp) div ticks_per_second) else tp div ticks_per_second)"

definition from_time_t :: "int \<Rightarrow> int" where
  "from_time_t t = wrap64 (t * ticks_per_second)"

definition hours :: "int \<Rightarrow> int" where
  "hours n = n * 3600 * ticks_per_second"

text \<open>\<^verbatim>\<open>time(nullptr)\<close>, as \<^verbatim>\<open>details::os::localtime()\<close> calls it: the whole seconds of the
  clock's reading \<open>now\<close>.\<close>

definition os_time :: "int \<Rightarrow> int" where
  "os_time now = now div ticks_per_second"

text \<open>A clock reading at least 24 hours away from both ends of the 64-bit range.\<close>

definition clock_safe :: "int \<Rightarrow> bool" where
  "clock_safe now = (- (2 ^ 63) + hours 24 \<le> now \<and> now + hours 24 < 2 ^ 63)"

text \<open>The fields of a date and time written the usual way, and its instant in UTC.\<close>

definition civil :: "int \<Rightarrow> int \<Rightarrow> int \<Rightarrow> int \<Rightarrow> int \<Rightarrow> int \<Rightarrow> tm" where
  "civil y mo d h mi s =
     \<lparr>tm_sec = s, tm_min = mi, tm_hour = h, tm_mday = d, tm_mon = mo - 1, tm_year = y - 1900,
      tm_isdst = 0\<rparr>"

definition instant :: "int \<Rightarrow> int \<Rightarrow> int \<Rightarrow> int \<Rightarrow> int \<Rightarrow> int \<Rightarrow> int" where
  "instant y mo d h mi s = from_time_t (timegm (civil y mo d h mi s))"

section \<open>The daily file sink (rotation by time)\<close>

text \<open>
  The file name calculators, lines 198-227. Each reads the clock once
  (\<^verbatim>\<open>details::os::localtime()\<close>); \<open>now\<close> is that reading, \<open>z\<close> the zone of the
  process. Lines 204-205 and 221-222 redeclare \<open>basename\<close> and name an undeclared
  \<open>filename\<close>; the model formats the parameters, as the format call of lines 207 and 224
  is written.
\<close>

definition default_daily_calc_filename :: "zone \<Rightarrow> string \<Rightarrow> string \<Rightarrow> int \<Rightarrow> string" where
  "default_daily_calc_filename z basename extension now =
     (let date = localtime z (os_time now)
      in basename @ ''_'' @ fmt_0d 4 (tm_year date + 1900) @ ''-'' @ fmt_0d 2 (tm_mon date + 1) @
         ''-'' @ fmt_0d 2 (tm_mday date) @ ''_'' @ fmt_0d 2 (tm_hour date) @ ''-'' @
         fmt_0d 2 (tm_min date) @ ''.'' @ extension)"

definition dateonly_daily_calc_filename :: "zone \<Rightarrow> string \<Rightarrow> string \<Rightarrow> int \<Rightarrow> string" where
  "dateonly_daily_calc_filename z basename extension now =
     (let date = localtime z (os_time now)
      in basename @ ''_'' @ fmt_0d 4 (tm_year date + 1900) @ ''-'' @ fmt_0d 2 (tm_mon date + 1) @
         ''-'' @ fmt_0d 2 (tm_mday date) @ ''.'' @ extension)"

record daily_file_sink =
  d_extension :: string
  d_base_filename :: string
  d_rotation_h :: int
  d_rotation_m :: int
  d_rotation_tp :: int
  d_file_helper :: file_helper

text \<open>\<^verbatim>\<open>_next_rotation_tp\<close>, lines 300-314; \<open>now\<close> is its reading of the clock. The sum of
  the last line is a sum of 64-bit tick counts.\<close>

definition next_rotation_tp :: "zone \<Rightarrow> daily_file_sink \<Rightarrow> int \<Rightarrow> int" where
  "next_rotation_tp z s now =
     (let tnow = to_time_t now;
          date = localtime z tnow;
          date = date\<lparr>tm_hour := d_rotation_h s, tm_min := d_rotation_m s, tm_sec := 0\<rparr>;
          rotation_time = from_time_t (mktime z date)
      in if rotation_time > now then rotation_time else wrap64 (rotation_time + hours 24))"

text \<open>The candidate of \<^verbatim>\<open>_next_rotation_tp\<close> in seconds: the value of \<^verbatim>\<open>std::mktime(&date)\<close>
  at line 307.\<close>

definition rotation_candidate :: "zone \<Rightarrow> daily_file_sink \<Rightarrow> int \<Rightarrow> int" where
  "rotation_candidate z s now =
     mktime z ((localtime z (to_time_t now))
       \<lparr>tm_hour := d_rotation_h s, tm_min := d_rotation_m s, tm_sec := 0\<rparr>)"

text \<open>
  The constructor from a path, lines 237-263. \<open>FileNameCalc\<close> is the template parameter,
  \<open>z\<close> the zone of the process;
  \<open>now1\<close> is the clock as \<^verbatim>\<open>_next_rotation_tp\<close> reads it, \<open>now2\<close> as the calculator
  reads it afterwards.
\<close>

definition daily_file_sink_ctor ::
  "zone \<Rightarrow> (zone \<Rightarrow> string \<Rightarrow> string \<Rightarrow> int \<Rightarrow> string) \<Rightarrow> string \<Rightarrow> int \<Rightarrow> int \<Rightarrow> int \<Rightarrow> int \<Rightarrow> os_state \<Rightarrow>
   (spdlog_ex + daily_file_sink) \<times> os_state" where
  "daily_file_sink_ctor z FileNameCalc filename rotation_hour rotation_minute now1 now2 os =
     (if rotation_hour < 0 \<or> rotation_hour > 23 \<or> rotation_minute < 0 \<or> rotation_minute > 59
      then (Inl (Spdlog_ex ''daily_file_sink: Invalid rotation time in ctor''), os)
      else
        let s0 = \<lparr>d_extension = [], d_base_filename = [], d_rotation_h = rotation_hour,
                  d_rotation_m = rotation_minute, d_rotation_tp = 0,
                  d_file_helper = file_helper_init\<rparr>;
            s1 = s0\<lparr>d_rotation_tp := next_rotation_tp z s0 now1\<rparr>;
            (base, ext) = daily_split filename;
            s2 = s1\<lparr>d_base_filename := base, d_extension := ext\<rparr>
        in case fh_open (d_file_helper s2) (FileNameCalc z base ext now2) False os of
             (Some e, fh, os1) \<Rightarrow> (Inl e, os1)
           | (None, fh, os1) \<Rightarrow> (Inr (s2\<lparr>d_file_helper := fh\<rparr>), os1))"

text \<open>The constructor from a base name and an extension, lines 265-281.\<close>

definition daily_file_sink_ctor2 ::
  "zone \<Rightarrow> (zone \<Rightarrow> string \<Rightarrow> string \<Rightarrow> int \<Rightarrow> string) \<Rightarrow> string \<Rightarrow> string \<Rightarrow> int \<Rightarrow> int \<Rightarrow> int \<Rightarrow> int \<Rightarrow>
   os_state \<Rightarrow> (spdlog_ex + daily_file_sink) \<times> os_state" where
  "daily_file_sink_ctor2 z FileNameCalc base_filename extension rotation_hour rotation_minute
       now1 now2 os =
     (if rotation_hour < 0 \<or> rotation_hour > 23 \<or> rotation_minute < 0 \<or> rotation_minute > 59
      then (Inl (Spdlog_ex ''daily_file_sink: Invalid rotation time in ctor''), os)
      else
        let s0 = \<lparr>d_extension = extension, d_base_filename = base_filename,
                  d_rotation_h = rotation_hour, d_rotation_m = rotation_minute,
                  d_rotation_tp = 0, d_file_helper = file_helper_init\<rparr>;
            s1 = s0\<lparr>d_rotation_tp := next_rotation_tp z s0 now1\<rparr>
        in case fh_open (d_file_helper s1) (FileNameCalc z base_filename extension now2) False os of
             (Some e, fh, os1) \<Rightarrow> (Inl e, os1)
           | (None, fh, os1) \<Rightarrow> (Inr (s1\<lparr>d_file_helper := fh\<rparr>), os1))"

definition daily_write ::
  "daily_file_sink \<Rightarrow> string \<Rightarrow> os_state \<Rightarrow> spdlog_ex option \<times> daily_file_sink \<times> os_state" where
  "daily_write s msg os = (case fh_write (d_file_helper s) msg os of (ex, os1) \<Rightarrow> (ex, s, os1))"

text \<open>
  \<^verbatim>\<open>daily_file_sink::_sink_it\<close>, lines 284-292. It reads the clock up to three times:
  \<open>now1\<close> in the test, \<open>now2\<close> in the calculator, \<open>now3\<close> in \<^verbatim>\<open>_next_rotation_tp\<close>.
\<close>

definition daily_sink_it ::
  "zone \<Rightarrow> (zone \<Rightarrow> string \<Rightarrow> string \<Rightarrow> int \<Rightarrow> string) \<Rightarrow> daily_file_sink \<Rightarrow> string \<Rightarrow> int \<Rightarrow> int \<Rightarrow> int \<Rightarrow>
   os_state \<Rightarrow> spdlog_ex option \<times> daily_file_sink \<times> os_state" where
  "daily_sink_it z FileNameCalc s msg now1 now2 now3 os =
     (if now1 \<ge> d_rotation_tp s
      then (case fh_open (d_file_helper s)
                   (FileNameCalc z (d_base_filename s) (d_extension s) now2) False os of
              (Some e, fh, os1) \<Rightarrow> (Some e, s\<lparr>d_file_helper := fh\<rparr>, os1)
            | (None, fh, os1) \<Rightarrow>
                daily_write (s\<lparr>d_file_helper := fh, d_rotation_tp := next_rotation_tp z s now3\<rparr>)
                  msg os1)
      else daily_write s msg os)"

definition daily_flush :: "daily_file_sink \<Rightarrow> os_state \<Rightarrow> os_state" where
  "daily_flush s os = fh_flush (d_file_helper s) os"


text \<open>A daily sink rotating at \<open>h:m\<close>, for the examples.\<close>

definition daily_example :: "int \<Rightarrow> int \<Rightarrow> daily_file_sink" where
  "daily_example h m =
     \<lparr>d_extension = ''txt'', d_base_filename = ''daily'', d_rotation_h = h, d_rotation_m = m,
      d_rotation_tp = 0, d_file_helper = file_helper_init\<rparr>"

text \<open>The same sink, open on file \<open>f\<close> and due to rotate at \<open>tp\<close>.\<close>

definition daily_open :: "string \<Rightarrow> int \<Rightarrow> int \<Rightarrow> int \<Rightarrow> daily_file_sink" where
  "daily_open f h m tp =
     (daily_example h m)\<lparr>d_rotation_tp := tp,
        d_file_helper := \<lparr>fh_filename = f, fh_is_open = True\<rparr>\<rparr>"


section \<open>Facts about the string functions\<close>
lemma find_last_from_bound:
  "found = npos \<or> found < i \<Longrightarrow>
   find_last_from c s i found = npos \<or> find_last_from c s i found < i + length s"
proof (induction s arbitrary: i found)
  case Nil
  then show ?case by simp
next
  case (Cons x xs)
  have "(if x = c then i else found) = npos \<or> (if x = c then i else found) < Suc i"
    using Cons.prems by auto
  from Cons.IH [OF this] show ?case by simp
qed

lemma find_last_of_bound: "find_last_of s c = npos \<or> find_last_of s c < length s"
  using find_last_from_bound [of npos 0 c s] by (simp add: find_last_of_def)

lemma split_pos_in_range: "size_t_succ (find_last_of s c) \<le> length s"
proof -
  consider "find_last_of s c = npos" | "find_last_of s c < length s"
    using find_last_of_bound by blast
  then show ?thesis
  proof cases
    case 1
    then show ?thesis by (simp add: size_t_succ_def npos_def)
  next
    case 2
    have "(find_last_of s c + 1) mod 2 ^ 64 \<le> find_last_of s c + 1"
      by (rule mod_less_eq_dividend)
    with 2 show ?thesis by (simp add: size_t_succ_def)
  qed
qed

lemma find_last_from_le:
  "found \<le> npos \<Longrightarrow> i + length s \<le> npos \<Longrightarrow> find_last_from c s i found \<le> npos"
  by (induction s arbitrary: i found) auto

text \<open>
  The guard of line 81 is never true: when there is no dot, \<open>ndx\<close> is the largest
  \<^verbatim>\<open>size_t\<close> and nothing is greater. The rotating sink always takes the second branch.
\<close>

lemma split_guard_never_true:
  assumes "length filename \<le> npos"
  shows "rotating_split filename =
     (substr filename 0 (find_last_of filename CHR ''.''),
      substr filename (size_t_succ (find_last_of filename CHR ''.'')) npos)"
proof -
  have "find_last_of filename c \<le> npos" for c
    unfolding find_last_of_def using assms by (intro find_last_from_le) simp_all
  then have "\<not> npos < find_last_of filename c" for c
    by (simp add: not_less)
  then show ?thesis
    by (auto simp: rotating_split_def Let_def)
qed

section \<open>Facts about the rotating sink\<close>

lemma digit_val_digit_char: "d < 10 \<Longrightarrow> digit_val (digit_char d) = d"
proof -
  assume "d < 10"
  then have "d = 0 \<or> d = 1 \<or> d = 2 \<or> d = 3 \<or> d = 4 \<or> d = 5 \<or> d = 6 \<or> d = 7 \<or> d = 8 \<or> d = 9"
    by arith
  then show ?thesis
    by (elim disjE) (simp_all add: digit_val_def digit_char_def)
qed

lemma read_show_nat: "read_nat (show_nat n) = n"
proof (induction n rule: show_nat.induct)
  case (1 n)
  show ?case
  proof (cases "n < 10")
    case True
    then show ?thesis
      by (subst show_nat.simps) (simp add: read_nat_def digit_val_digit_char)
  next
    case False
    with 1 have "read_nat (show_nat (n div 10)) = n div 10" by simp
    with False show ?thesis
      by (subst show_nat.simps) (simp add: read_nat_def digit_val_digit_char)
  qed
qed

lemma show_nat_inj: "show_nat i = show_nat j \<Longrightarrow> i = j"
  by (metis read_show_nat)

lemma calc_filename_inj: "calc_filename b i e = calc_filename b j e \<Longrightarrow> i = j"
proof -
  assume eq: "calc_filename b i e = calc_filename b j e"
  have neq: "show_nat k @ ''.'' @ e \<noteq> e" for k
  proof
    assume "show_nat k @ ''.'' @ e = e"
    then have "length (show_nat k @ ''.'' @ e) = length e" by simp
    then show False by simp
  qed
  show ?thesis
  proof (cases "i = 0")
    case True
    with eq neq [of j] show ?thesis
      by (cases "j = 0") (auto simp: calc_filename_def)
  next
    case False
    with eq neq [of i] show ?thesis
      by (cases "j = 0") (auto simp: calc_filename_def dest: show_nat_inj)
  qed
qed

lemma rotate_step_None:
  assumes "rotate_step b e i os = (None, os')" and "i \<noteq> 0"
  shows "files os' = (files os)(calc_filename b i e := files os (calc_filename b (i - 1) e),
            calc_filename b (i - 1) e := None)"
    and "remove_fails os' = remove_fails os"
    and "rename_fails os' = rename_fails os"
    and "open_fails os' = open_fails os"
    and "\<exists>cs. calls os' = calls os @ cs \<and> list_all is_move cs"
proof -
  have ne: "calc_filename b (i - 1) e \<noteq> calc_filename b i e"
    using assms(2) calc_filename_inj [of b "i - 1" e i] by auto
  show "files os' = (files os)(calc_filename b i e := files os (calc_filename b (i - 1) e),
            calc_filename b (i - 1) e := None)"
    using assms(1) ne
    by (auto simp: rotate_step_def os_remove_def os_rename_def file_exists_def Let_def fun_eq_iff
        split: if_splits)
  show "remove_fails os' = remove_fails os"
    using assms(1)
    by (auto simp: rotate_step_def os_remove_def os_rename_def file_exists_def Let_def
        split: if_splits)
  show "rename_fails os' = rename_fails os"
    using assms(1)
    by (auto simp: rotate_step_def os_remove_def os_rename_def file_exists_def Let_def
        split: if_splits)
  show "open_fails os' = open_fails os"
    using assms(1)
    by (auto simp: rotate_step_def os_remove_def os_rename_def file_exists_def Let_def
        split: if_splits)
  show "\<exists>cs. calls os' = calls os @ cs \<and> list_all is_move cs"
    using assms(1)
    by (auto simp: rotate_step_def os_remove_def os_rename_def file_exists_def Let_def
        split: if_splits)
qed

lemma rotate_step_Some:
  assumes "rotate_step b e i os = (Some ex, os')"
  shows "(ex = remove_failure b e i os \<and> remove_fails os (calc_filename b i e) \<noteq> 0 \<and>
          files os (calc_filename b i e) \<noteq> None \<and>
          files os' = files os \<and> calls os' = calls os @ [Sys_remove (calc_filename b i e)]) \<or>
         (ex = rename_failure b e i os \<and>
          rename_fails os (calc_filename b (i - 1) e) (calc_filename b i e) \<noteq> 0 \<and>
          files os (calc_filename b (i - 1) e) \<noteq> None \<and>
          files os' = (files os)(calc_filename b i e := None) \<and>
          (\<exists>cs. calls os' = calls os @ cs @
              [Sys_rename (calc_filename b (i - 1) e) (calc_filename b i e)] \<and> list_all is_move cs))"
  using assms
  by (auto simp: rotate_step_def os_remove_def os_rename_def file_exists_def Let_def fun_eq_iff
      remove_failure_def rename_failure_def split: if_splits)

lemma rotate_loop_None:
  "rotate_loop b e n os = (None, os') \<Longrightarrow>
     (\<forall>i. 1 \<le> i \<and> i \<le> n \<longrightarrow> files os' (calc_filename b i e) = files os (calc_filename b (i - 1) e)) \<and>
     (1 \<le> n \<longrightarrow> files os' (calc_filename b 0 e) = None) \<and>
     (\<forall>p. (\<forall>i\<le>n. p \<noteq> calc_filename b i e) \<longrightarrow> files os' p = files os p) \<and>
     remove_fails os' = remove_fails os \<and> rename_fails os' = rename_fails os \<and>
     open_fails os' = open_fails os \<and>
     (\<exists>cs. calls os' = calls os @ cs \<and> list_all is_move cs)"
proof (induction n arbitrary: os)
  case 0
  then show ?case by simp
next
  case (Suc n)
  from Suc.prems obtain os1 where
    step: "rotate_step b e (Suc n) os = (None, os1)" and
    rest: "rotate_loop b e n os1 = (None, os')"
    by (auto split: prod.splits option.splits)
  note s = rotate_step_None [OF step, simplified]
  note ih = Suc.IH [OF rest]
  have inj: "\<And>i j. calc_filename b i e = calc_filename b j e \<Longrightarrow> i = j"
    by (rule calc_filename_inj)
  have a: "files os' (calc_filename b i e) = files os (calc_filename b (i - 1) e)"
    if "1 \<le> i" "i \<le> Suc n" for i
  proof (cases "i = Suc n")
    case True
    have "files os' (calc_filename b (Suc n) e) = files os1 (calc_filename b (Suc n) e)"
      using ih inj by (metis Suc_n_not_le_n)
    also have "\<dots> = files os (calc_filename b n e)"
      using s(1) inj [of "Suc n" n] by auto
    finally show ?thesis using True by simp
  next
    case False
    with that have le: "i \<le> n" by simp
    then have "files os' (calc_filename b i e) = files os1 (calc_filename b (i - 1) e)"
      using ih that by blast
    also have "\<dots> = files os (calc_filename b (i - 1) e)"
      using s(1) le that inj [of "i - 1" n] inj [of "i - 1" "Suc n"] by auto
    finally show ?thesis .
  qed
  have z: "files os' (calc_filename b 0 e) = None"
  proof (cases "n = 0")
    case True
    with rest have "os' = os1" by simp
    with s(1) True show ?thesis by simp
  next
    case False
    with ih show ?thesis by simp
  qed
  have c: "files os' p = files os p" if "\<forall>i\<le>Suc n. p \<noteq> calc_filename b i e" for p
  proof -
    have "files os' p = files os1 p" using ih that by simp
    also have "\<dots> = files os p" using s(1) that by auto
    finally show ?thesis .
  qed
  from s(5) ih obtain cs1 cs2 where
    "calls os1 = calls os @ cs1" "list_all is_move cs1"
    "calls os' = calls os1 @ cs2" "list_all is_move cs2"
    by blast
  then have d: "\<exists>cs. calls os' = calls os @ cs \<and> list_all is_move cs"
    by (intro exI [of _ "cs1 @ cs2"]) simp
  show ?case
    using a z c d s(2,3,4) ih by simp
qed

lemma rotate_loop_Some:
  "rotate_loop b e n os = (Some ex, os') \<Longrightarrow>
     \<exists>i. 1 \<le> i \<and> i \<le> n \<and> failed_at b e i os ex os' \<and>
       (\<forall>j<i. files os' (calc_filename b j e) = files os (calc_filename b j e)) \<and>
       (\<forall>p. (\<forall>j\<le>n. p \<noteq> calc_filename b j e) \<longrightarrow> files os' p = files os p) \<and>
       (\<exists>cs. calls os' = calls os @ cs \<and> list_all is_move cs)"
proof (induction n arbitrary: os)
  case 0
  then show ?case by simp
next
  case (Suc n)
  have inj: "\<And>i j. calc_filename b i e = calc_filename b j e \<Longrightarrow> i = j"
    by (rule calc_filename_inj)
  show ?case
  proof (cases "rotate_step b e (Suc n) os")
    case (Pair r os1)
    show ?thesis
    proof (cases r)
      case None
      with Pair Suc.prems have rest: "rotate_loop b e n os1 = (Some ex, os')" by simp
      from Pair None have step: "rotate_step b e (Suc n) os = (None, os1)" by simp
      note s = rotate_step_None [OF step, simplified]
      from Suc.IH [OF rest] obtain i where i: "1 \<le> i" "i \<le> n"
        and f: "failed_at b e i os1 ex os'"
        and below: "\<forall>j<i. files os' (calc_filename b j e) = files os1 (calc_filename b j e)"
        and other: "\<forall>p. (\<forall>j\<le>n. p \<noteq> calc_filename b j e) \<longrightarrow> files os' p = files os1 p"
        and cs: "\<exists>cs. calls os' = calls os1 @ cs \<and> list_all is_move cs"
        by blast
      have f': "failed_at b e i os ex os'"
        using f s(2,3) by (simp add: failed_at_def remove_failure_def rename_failure_def)
      have below': "files os' (calc_filename b j e) = files os (calc_filename b j e)" if "j < i" for j
      proof -
        have "files os' (calc_filename b j e) = files os1 (calc_filename b j e)"
          using below that by simp
        also have "\<dots> = files os (calc_filename b j e)"
          using s(1) that i inj [of j n] inj [of j "Suc n"] by auto
        finally show ?thesis .
      qed
      have other': "files os' p = files os p" if "\<forall>j\<le>Suc n. p \<noteq> calc_filename b j e" for p
      proof -
        have "files os' p = files os1 p" using other that by simp
        also have "\<dots> = files os p" using s(1) that by auto
        finally show ?thesis .
      qed
      from s(5) cs obtain cs1 cs2 where
        "calls os1 = calls os @ cs1" "list_all is_move cs1"
        "calls os' = calls os1 @ cs2" "list_all is_move cs2"
        by blast
      then have cs': "\<exists>cs. calls os' = calls os @ cs \<and> list_all is_move cs"
        by (intro exI [of _ "cs1 @ cs2"]) simp
      show ?thesis
        using i f' below' other' cs' by (intro exI [of _ i]) simp
    next
      case (Some ex1)
      with Pair Suc.prems have eq: "ex1 = ex" "os1 = os'" by simp_all
      with Pair Some have step: "rotate_step b e (Suc n) os = (Some ex, os')" by simp
      have ne: "calc_filename b j e \<noteq> calc_filename b (Suc n) e" if "j < Suc n" for j
        using inj [of j "Suc n"] that by auto
      from rotate_step_Some [OF step]
      consider
        (rm) "ex = remove_failure b e (Suc n) os"
          "remove_fails os (calc_filename b (Suc n) e) \<noteq> 0"
          "files os' = files os"
          "calls os' = calls os @ [Sys_remove (calc_filename b (Suc n) e)]"
      | (rn) cs where "ex = rename_failure b e (Suc n) os"
          "rename_fails os (calc_filename b (Suc n - 1) e) (calc_filename b (Suc n) e) \<noteq> 0"
          "files os' = (files os)(calc_filename b (Suc n) e := None)"
          "calls os' = calls os @ cs @ [Sys_rename (calc_filename b (Suc n - 1) e) (calc_filename b (Suc n) e)]"
          "list_all is_move cs"
        by blast
      then show ?thesis
      proof cases
        case rm
        then show ?thesis
          by (intro exI [of _ "Suc n"]) (simp add: failed_at_def)
      next
        case rn
        have "\<exists>cs'. calls os' = calls os @ cs' \<and> list_all is_move cs'"
          using rn(4,5)
          by (intro exI [of _ "cs @ [Sys_rename (calc_filename b (Suc n - 1) e) (calc_filename b (Suc n) e)]"])
            simp
        with rn ne show ?thesis
          by (intro exI [of _ "Suc n"]) (auto simp: failed_at_def)
      qed
    qed
  qed
qed

lemma rotate_step_calls:
  assumes "rotate_step b e i os = (None, os')" and "i \<noteq> 0"
  shows "calls os' = calls os @
     (if files os (calc_filename b i e) \<noteq> None then [Sys_remove (calc_filename b i e)] else []) @
     (if files os (calc_filename b (i - 1) e) \<noteq> None
      then [Sys_rename (calc_filename b (i - 1) e) (calc_filename b i e)] else [])"
proof -
  have ne: "calc_filename b (i - 1) e \<noteq> calc_filename b i e"
    using assms(2) calc_filename_inj [of b "i - 1" e i] by auto
  show ?thesis
    using assms(1) ne
    by (auto simp: rotate_step_def os_remove_def os_rename_def file_exists_def Let_def
        split: if_splits)
qed

lemma rotation_calls_Suc:
  assumes step: "rotate_step b e (Suc n) os = (None, os1)"
  shows "rotation_calls b e (Suc n) os =
     (if files os (calc_filename b (Suc n) e) \<noteq> None
      then [Sys_remove (calc_filename b (Suc n) e)] else []) @
     (if files os (calc_filename b n e) \<noteq> None
      then [Sys_rename (calc_filename b n e) (calc_filename b (Suc n) e)] else []) @
     rotation_calls b e n os1"
proof -
  note s = rotate_step_None [OF step, simplified]
  have inj: "\<And>i j. calc_filename b i e = calc_filename b j e \<Longrightarrow> i = j"
    by (rule calc_filename_inj)
  have gone: "files os1 (calc_filename b n e) = None"
    using s(1) by simp
  have same: "files os1 (calc_filename b (i - 1) e) = files os (calc_filename b (i - 1) e)"
    if "i \<in> set (rev [1..<Suc n])" for i
    using s(1) that inj [of "i - 1" n] inj [of "i - 1" "Suc n"] by auto
  have feq: "filter (\<lambda>i. files os1 (calc_filename b (i - 1) e) \<noteq> None) (rev [1..<Suc n]) =
      filter (\<lambda>i. files os (calc_filename b (i - 1) e) \<noteq> None) (rev [1..<Suc n])"
    by (rule filter_cong [OF refl]) (simp only: same)
  have "rotation_calls b e n os1 =
      map (\<lambda>i. Sys_rename (calc_filename b (i - 1) e) (calc_filename b i e))
        (filter (\<lambda>i. files os1 (calc_filename b (i - 1) e) \<noteq> None) (rev [1..<Suc n]))"
    unfolding rotation_calls_def using gone by simp
  then have "rotation_calls b e n os1 =
      map (\<lambda>i. Sys_rename (calc_filename b (i - 1) e) (calc_filename b i e))
        (filter (\<lambda>i. files os (calc_filename b (i - 1) e) \<noteq> None) (rev [1..<Suc n]))"
    by (simp only: feq)
  then show ?thesis
    by (simp add: rotation_calls_def)
qed

lemma rotate_loop_calls:
  "rotate_loop b e n os = (None, os') \<Longrightarrow> calls os' = calls os @ rotation_calls b e n os"
proof (induction n arbitrary: os)
  case 0
  then show ?case by (simp add: rotation_calls_def)
next
  case (Suc n)
  from Suc.prems obtain os1 where
    step: "rotate_step b e (Suc n) os = (None, os1)" and
    rest: "rotate_loop b e n os1 = (None, os')"
    by (auto split: prod.splits option.splits)
  have "calls os' = calls os1 @ rotation_calls b e n os1"
    by (rule Suc.IH [OF rest])
  then show ?case
    using rotate_step_calls [OF step] rotation_calls_Suc [OF step] by simp
qed

lemma call_ok_cong:
  "remove_fails os1 = remove_fails os \<Longrightarrow> rename_fails os1 = rename_fails os \<Longrightarrow>
   open_fails os1 = open_fails os \<Longrightarrow> call_ok os1 c = call_ok os c"
  by (cases c) simp_all

lemma rotate_step_ok:
  assumes "rotate_step b e i os = (None, os')" and "i \<noteq> 0"
  shows "(files os (calc_filename b i e) \<noteq> None \<longrightarrow> remove_fails os (calc_filename b i e) = 0) \<and>
         (files os (calc_filename b (i - 1) e) \<noteq> None \<longrightarrow>
            rename_fails os (calc_filename b (i - 1) e) (calc_filename b i e) = 0)"
proof -
  have ne: "calc_filename b (i - 1) e \<noteq> calc_filename b i e"
    using assms(2) calc_filename_inj [of b "i - 1" e i] by auto
  show ?thesis
    using assms(1) ne
    by (auto simp: rotate_step_def os_remove_def os_rename_def file_exists_def Let_def
        split: if_splits)
qed

lemma rotate_loop_ok:
  "rotate_loop b e n os = (None, os') \<Longrightarrow> list_all (call_ok os) (rotation_calls b e n os)"
proof (induction n arbitrary: os)
  case 0
  then show ?case by (simp add: rotation_calls_def)
next
  case (Suc n)
  from Suc.prems obtain os1 where
    step: "rotate_step b e (Suc n) os = (None, os1)" and
    rest: "rotate_loop b e n os1 = (None, os')"
    by (auto split: prod.splits option.splits)
  note s = rotate_step_None [OF step, simplified]
  have "list_all (call_ok os1) (rotation_calls b e n os1)"
    by (rule Suc.IH [OF rest])
  then have "list_all (call_ok os) (rotation_calls b e n os1)"
    using call_ok_cong [OF s(2,3,4)] by (simp add: list_all_iff)
  then show ?case
    using rotate_step_ok [OF step] rotation_calls_Suc [OF step] by simp
qed

lemma rotate_success:
  assumes inv: "rotating_inv s" and rot: "rotate s os = (None, s', os')"
  shows "(\<forall>i. 1 \<le> i \<and> i \<le> r_max_files s \<longrightarrow> files os' (indexed s i) = files os (indexed s (i - 1))) \<and>
         files os' (indexed s 0) = Some [] \<and>
         (\<forall>p. (\<forall>i\<le>r_max_files s. p \<noteq> indexed s i) \<longrightarrow> files os' p = files os p) \<and>
         calls os' = calls os @ rotation_calls (r_base_filename s) (r_extension s) (r_max_files s) os @
            [Sys_open (indexed s 0) True] \<and>
         s' = s"
proof -
  let ?b = "r_base_filename s" and ?e = "r_extension s" and ?n = "r_max_files s"
  from rot obtain os1 where
    loop: "rotate_loop ?b ?e ?n os = (None, os1)" and
    re: "fh_reopen (fh_close (r_file_helper s)) True os1 = (None, r_file_helper s', os')" and
    s': "s' = s\<lparr>r_file_helper := r_file_helper s'\<rparr>"
    by (auto simp: rotate_def Let_def split: prod.splits option.splits)
  note l = rotate_loop_None [OF loop]
  note c = rotate_loop_calls [OF loop]
  have name: "fh_filename (r_file_helper s) = indexed s 0" and op: "fh_is_open (r_file_helper s)"
    using inv by (simp_all add: rotating_inv_def indexed_def)
  from re name have ok: "open_fails os1 (indexed s 0) = 0"
    and f: "files os' = (files os1)(indexed s 0 \<mapsto> [])"
    and cl: "calls os' = calls os1 @ [Sys_open (indexed s 0) True]"
    by (auto simp: fh_reopen_def fh_open_def fh_close_def Let_def split: if_splits)
  have fh: "r_file_helper s' = r_file_helper s"
    using re name op
    by (cases "r_file_helper s")
      (auto simp: fh_reopen_def fh_open_def fh_close_def Let_def split: if_splits)
  have inj: "\<And>i j. indexed s i = indexed s j \<Longrightarrow> i = j"
    unfolding indexed_def by (rule calc_filename_inj)
  have a: "files os' (indexed s i) = files os (indexed s (i - 1))" if "1 \<le> i" "i \<le> ?n" for i
    using that l f inj [of i 0] by (auto simp: indexed_def)
  have b: "files os' p = files os p" if "\<forall>i\<le>?n. p \<noteq> indexed s i" for p
    using that l f by (auto simp: indexed_def)
  from s' fh have "s' = s" by simp
  with a b f c cl show ?thesis by (simp add: indexed_def)
qed

lemma rotating_write_open:
  "fh_is_open (r_file_helper s) \<Longrightarrow>
   rotating_write s msg os =
     (None, s, os\<lparr>files := (files os)(fh_filename (r_file_helper s) \<mapsto>
                     (case files os (fh_filename (r_file_helper s)) of None \<Rightarrow> [] | Some c \<Rightarrow> c) @ msg),
                   calls := calls os @ [Sys_write (fh_filename (r_file_helper s)) msg]\<rparr>)"
  by (simp add: rotating_write_def fh_write_def)

lemma rotate_Some_loop:
  "rotate_loop (r_base_filename s) (r_extension s) (r_max_files s) os = (Some ex, os1) \<Longrightarrow>
   rotate s os = (Some ex, s\<lparr>r_file_helper := fh_close (r_file_helper s)\<rparr>, os1)"
  by (simp add: rotate_def Let_def)

lemma rotate_step_no_faults:
  assumes "\<forall>p. remove_fails os p = 0" and "\<forall>a b. rename_fails os a b = 0"
  shows "fst (rotate_step b e i os) = None"
  using assms
  by (auto simp: rotate_step_def os_remove_def os_rename_def file_exists_def Let_def
      split: if_splits prod.splits)

lemma rotate_loop_no_faults:
  "\<forall>p. remove_fails os p = 0 \<Longrightarrow> \<forall>a b. rename_fails os a b = 0 \<Longrightarrow>
   fst (rotate_loop b e n os) = None"
proof (induction n arbitrary: os)
  case 0
  then show ?case by simp
next
  case (Suc n)
  obtain r os1 where step: "rotate_step b e (Suc n) os = (r, os1)"
    by (cases "rotate_step b e (Suc n) os") auto
  with rotate_step_no_faults [OF Suc.prems, of b e "Suc n"] have r: "r = None" by simp
  note s = rotate_step_None [OF step [unfolded r], simplified]
  have "fst (rotate_loop b e n os1) = None"
    using Suc.IH [of os1] Suc.prems s(2,3) by simp
  with step r show ?case by simp
qed

lemma rotate_no_faults:
  assumes "\<forall>p. remove_fails os p = 0" and "\<forall>a b. rename_fails os a b = 0"
    and "\<forall>p. open_fails os p = 0"
  shows "fst (rotate s os) = None"
proof -
  obtain r os1 where l: "rotate_loop (r_base_filename s) (r_extension s) (r_max_files s) os = (r, os1)"
    by (cases "rotate_loop (r_base_filename s) (r_extension s) (r_max_files s) os") auto
  with rotate_loop_no_faults [OF assms(1,2), of "r_base_filename s" "r_extension s" "r_max_files s"]
  have r: "r = None" by simp
  from rotate_loop_None [OF l [unfolded r]] assms(3) have "\<forall>p. open_fails os1 p = 0" by simp
  then show ?thesis
    using l r by (simp add: rotate_def Let_def fh_reopen_def fh_open_def)
qed

lemma no_wrap_compare:
  fixes cur mx :: "64 word"
  assumes "unat cur + length msg < 2 ^ 64"
  shows "mx < cur + msg_size msg \<longleftrightarrow> unat mx < unat cur + length msg"
proof -
  have "unat (msg_size msg) = length msg"
    using assms by (simp add: msg_size_def unat_of_nat)
  moreover from this assms have "unat (cur + msg_size msg) = unat cur + unat (msg_size msg)"
    by (simp add: unat_word_ariths)
  ultimately show ?thesis
    by (simp add: word_less_nat_alt)
qed

text \<open>Facts for evaluating the sink on the example states.\<close>

lemma rotate_loop_numeral:
  "rotate_loop b e (numeral k) os =
     (case rotate_step b e (numeral k) os of
        (Some ex, os1) \<Rightarrow> (Some ex, os1)
      | (None, os1) \<Rightarrow> rotate_loop b e (pred_numeral k) os1)"
  by (simp add: numeral_eq_Suc)

lemmas eval_defs = no_faults_def app_os_def app_sink_def app_os_locked_def rotating_inv_def
  indexed_def calc_filename_def rotate_def rotate_step_def os_remove_def os_rename_def
  file_exists_def fh_reopen_def fh_open_def fh_close_def fh_write_def rotating_write_def
  rotating_sink_it_def msg_size_def Let_def show_nat.simps digit_char_def rotation_calls_def
  rotate_loop_numeral


text \<open>
  The invariant holds of every sink the constructor returns, and of the sink after every
  write that returns normally. \<open>app_sink\<close> is such a sink.
\<close>

lemma rotating_ctor_inv:
  "rotating_file_sink_ctor filename max_size max_files os = (Inr s, os') \<Longrightarrow> rotating_inv s"
  by (auto simp: rotating_file_sink_ctor_def rotating_inv_def fh_open_def fh_close_def
      file_helper_init_def Let_def split: prod.splits if_splits)

lemma rotating_sink_it_inv:
  assumes "rotating_inv s" and "rotating_sink_it s msg os = (None, s', os')"
  shows "rotating_inv s'"
proof (cases "r_max_size s < r_current_size s + msg_size msg")
  case True
  let ?s1 = "s\<lparr>r_current_size := r_current_size s + msg_size msg\<rparr>"
  have inv1: "rotating_inv ?s1"
    using assms(1) by (simp add: rotating_inv_def)
  from True assms(2) obtain s2 os2 where rot: "rotate ?s1 os = (None, s2, os2)"
    and w: "rotating_write (s2\<lparr>r_current_size := msg_size msg\<rparr>) msg os2 = (None, s', os')"
    by (auto simp: rotating_sink_it_def Let_def split: prod.splits option.splits)
  from rotate_success [OF inv1 rot] have "s2 = ?s1" by simp
  moreover from w have "s' = s2\<lparr>r_current_size := msg_size msg\<rparr>"
    by (auto simp: rotating_write_def split: prod.splits)
  ultimately show ?thesis
    using assms(1) by (simp add: rotating_inv_def)
next
  case False
  with assms(2) have "s' = s\<lparr>r_current_size := r_current_size s + msg_size msg\<rparr>"
    by (auto simp: rotating_sink_it_def Let_def rotating_write_def split: prod.splits)
  with assms(1) show ?thesis by (simp add: rotating_inv_def)
qed

lemma app_sink_constructed:
  "rotating_file_sink_ctor ''app.log'' 16 2 app_os =
     (Inr app_sink, app_os\<lparr>calls := [Sys_open ''app.log'' False]\<rparr>)"
  by (simp add: rotating_file_sink_ctor_def rotating_split_def find_last_of_def npos_def substr_def
      size_t_succ_def file_helper_init_def fh_size_def fh_open_def fh_close_def calc_filename_def
      no_faults_def app_os_def app_sink_def Let_def fun_eq_iff)

section \<open>Facts about the calendar\<close>

lemma div_step:
  fixes y k :: int
  assumes "0 < k"
  shows "y div k = (y - 1) div k + (if y mod k = 0 then 1 else 0)"
proof (cases "y mod k = 0")
  case True
  have "y - 1 = k * (y div k - 1) + (k - 1)"
    using True mult_div_mod_eq [of k y] by (simp add: algebra_simps)
  from int_div_pos_eq [OF this] assms have "(y - 1) div k = y div k - 1"
    by simp
  with True show ?thesis by simp
next
  case False
  have "0 \<le> y mod k" "y mod k < k"
    using assms by simp_all
  with False have r: "0 \<le> y mod k - 1" "y mod k - 1 < k"
    by simp_all
  have "y - 1 = k * (y div k) + (y mod k - 1)"
    using mult_div_mod_eq [of k y] by simp
  from int_div_pos_eq [OF this r] have "(y - 1) div k = y div k" .
  with False show ?thesis by simp
qed

lemma leap_years_upto_step:
  "leap_years_upto y = leap_years_upto (y - 1) + (if is_leap y then 1 else 0)"
proof -
  define p4 p100 p400 where "p4 = (y - 1) div 4" and "p100 = (y - 1) div 100"
    and "p400 = (y - 1) div 400"
  define q4 q100 q400 where "q4 = y div 4" and "q100 = y div 100" and "q400 = y div 400"
  have a: "q4 = p4 + (if y mod 4 = 0 then 1 else 0)"
    unfolding p4_def q4_def by (rule div_step) simp
  have b: "q100 = p100 + (if y mod 100 = 0 then 1 else 0)"
    unfolding p100_def q100_def by (rule div_step) simp
  have c: "q400 = p400 + (if y mod 400 = 0 then 1 else 0)"
    unfolding p400_def q400_def by (rule div_step) simp
  have d1: "y mod 100 = 0" if "y mod 400 = 0"
    using that mod_mod_cancel [of 100 400 y] by simp
  have d2: "y mod 4 = 0" if "y mod 100 = 0"
    using that mod_mod_cancel [of 4 100 y] by simp
  have "q4 - q100 + q400 = p4 - p100 + p400 + (if is_leap y then 1 else 0)"
    using a b c d1 d2 unfolding is_leap_def
    by (cases "y mod 4 = 0"; cases "y mod 100 = 0"; cases "y mod 400 = 0") simp_all
  then show ?thesis
    by (simp add: leap_years_upto_def p4_def p100_def p400_def q4_def q100_def q400_def)
qed

lemma days_before_year_Suc: "days_before_year (y + 1) = days_before_year y + year_len y"
  using leap_years_upto_step [of y] by (simp add: days_before_year_def year_len_def)

lemma days_before_year_pred: "days_before_year (y - 1) = days_before_year y - year_len (y - 1)"
  using days_before_year_Suc [of "y - 1"] by simp

lemma year_from_sound:
  "year_from y d = (y', d') \<Longrightarrow>
     days_before_year y' + d' = days_before_year y + d \<and> 0 \<le> d' \<and> d' < year_len y'"
proof (induction y d rule: year_from.induct)
  case (1 y d)
  show ?case
  proof (cases "d < 0")
    case True
    with "1.prems" have "year_from (y - 1) (d + year_len (y - 1)) = (y', d')"
      by (subst (asm) year_from.simps) simp
    from "1.IH"(1) [OF True this] show ?thesis
      by (simp add: days_before_year_pred)
  next
    case False
    show ?thesis
    proof (cases "year_len y \<le> d")
      case True
      with False "1.prems" have "year_from (y + 1) (d - year_len y) = (y', d')"
        by (subst (asm) year_from.simps) simp
      from "1.IH"(2) [OF False True this] show ?thesis
        by (simp add: days_before_year_Suc)
    next
      case nle: False
      with False "1.prems" have "y' = y" "d' = d"
        by (subst (asm) year_from.simps, simp)+
      with False nle show ?thesis by simp
    qed
  qed
qed

lemma month_from_sound:
  "month_from y m d = (m', d') \<Longrightarrow>
     days_before_month y m' + d' = days_before_month y m + d \<and> (m \<le> 11 \<longrightarrow> m' \<le> 11)"
proof (induction y m d rule: month_from.induct)
  case (1 y m d)
  show ?case
  proof (cases "m < 11 \<and> month_len y m \<le> d")
    case True
    with "1.prems" have "month_from y (Suc m) (d - month_len y m) = (m', d')"
      by (subst (asm) month_from.simps) simp
    from "1.IH" [OF True this] True show ?thesis
      by simp
  next
    case False
    with "1.prems" have "m' = m" "d' = d"
      by (subst (asm) month_from.simps, simp)+
    then show ?thesis by simp
  qed
qed

lemma gmtime_date:
  "86400 * (days_before_year (tm_year (gmtime t) + 1900) +
            days_before_month (tm_year (gmtime t) + 1900) (nat (tm_mon (gmtime t))) +
            (tm_mday (gmtime t) - 1)) = 86400 * (t div 86400)"
proof -
  obtain y yday where y: "year_from 1970 (t div 86400) = (y, yday)"
    by (cases "year_from 1970 (t div 86400)") auto
  obtain m mday where m: "month_from y 0 yday = (m, mday)"
    by (cases "month_from y 0 yday") auto
  have "days_before_year 1970 = 0"
    by (simp add: days_before_year_def)
  with year_from_sound [OF y] month_from_sound [OF m]
  have "days_before_year y + days_before_month y m + mday = t div 86400"
    by simp
  then show ?thesis
    using y m by (simp add: gmtime_def Let_def algebra_simps)
qed

lemma gmtime_time:
  "tm_hour (gmtime t) = t mod 86400 div 3600"
  "tm_min (gmtime t) = t mod 86400 div 60 mod 60"
  "tm_sec (gmtime t) = t mod 86400 mod 60"
  by (simp_all add: gmtime_def Let_def split: prod.splits)

lemma hms_split:
  fixes r :: int
  shows "3600 * (r div 3600) + 60 * (r div 60 mod 60) + r mod 60 = r"
proof -
  define q where "q = r div 60"
  have "r div 3600 = q div 60"
    unfolding q_def using zdiv_zmult2_eq [of 60 r 60] by simp
  moreover have "60 * (q div 60) + q mod 60 = q"
    by simp
  moreover have "60 * q + r mod 60 = r"
    unfolding q_def by simp
  ultimately show ?thesis
    unfolding q_def [symmetric] by linarith
qed

lemma timegm_gmtime: "timegm (gmtime t) = t"
proof -
  have "3600 * (t mod 86400 div 3600) + 60 * (t mod 86400 div 60 mod 60) + t mod 86400 mod 60 =
      t mod 86400"
    by (rule hms_split)
  moreover have "86400 * (t div 86400) + t mod 86400 = t"
    by simp
  ultimately show ?thesis
    unfolding timegm_def using gmtime_date [of t] gmtime_time [of t]
    by linarith
qed

lemma timegm_set_time:
  "timegm ((gmtime t)\<lparr>tm_hour := h, tm_min := mi, tm_sec := s\<rparr>) =
     86400 * (t div 86400) + 3600 * h + 60 * mi + s"
  unfolding timegm_def using gmtime_date [of t] by simp




lemma wrap64_id: "- (2 ^ 63) \<le> x \<Longrightarrow> x < 2 ^ 63 \<Longrightarrow> wrap64 x = x"
  by (simp add: wrap64_def)

lemma to_time_t_ticks: "to_time_t (t * ticks_per_second) = t"
proof -
  have "(- t * 1000000000) div 1000000000 = - t"
    by (rule nonzero_mult_div_cancel_right) simp
  then show ?thesis
    by (simp add: to_time_t_def ticks_per_second_def)
qed

lemma to_time_t_bounds:
  "to_time_t now * ticks_per_second - ticks_per_second < now"
  "now < to_time_t now * ticks_per_second + ticks_per_second"
proof -
  define k :: int where "k = 1000000000"
  have k: "0 < k" by (simp add: k_def)
  define q m where "q = now div k" and "m = now mod k"
  define q' m' where "q' = (- now) div k" and "m' = (- now) mod k"
  have 1: "now = k * q + m" "0 \<le> m" "m < k"
    using k by (simp_all add: q_def m_def)
  have 2: "- now = k * q' + m'" "0 \<le> m'" "m' < k"
    using k by (simp_all add: q'_def m'_def)
  have t: "to_time_t now * ticks_per_second = (if now < 0 then - (k * q') else k * q)"
    by (simp add: to_time_t_def ticks_per_second_def k_def q_def q'_def)
  show "to_time_t now * ticks_per_second - ticks_per_second < now"
    unfolding t using 1 2 by (simp add: ticks_per_second_def k_def [symmetric])
  show "now < to_time_t now * ticks_per_second + ticks_per_second"
    unfolding t using 1 2 by (simp add: ticks_per_second_def k_def [symmetric])
qed

lemma os_time_bounds:
  "os_time now * ticks_per_second \<le> now"
  "now < os_time now * ticks_per_second + ticks_per_second"
proof -
  define k :: int where "k = 1000000000"
  have k: "0 < k" by (simp add: k_def)
  define q m where "q = now div k" and "m = now mod k"
  have 1: "now = k * q + m" "0 \<le> m" "m < k"
    using k by (simp_all add: q_def m_def)
  have t: "os_time now * ticks_per_second = k * q"
    by (simp add: os_time_def ticks_per_second_def k_def q_def)
  show "os_time now * ticks_per_second \<le> now"
    unfolding t using 1 by simp
  show "now < os_time now * ticks_per_second + ticks_per_second"
    unfolding t using 1 by (simp add: ticks_per_second_def k_def [symmetric])
qed

section \<open>Facts about local time\<close>

lemma localtime_isdst: "tm_isdst (localtime z t) = (if in_dst z t then 1 else 0)"
  by (simp add: localtime_def)

lemma localtime_fields:
  "tm_sec (localtime z t) = tm_sec (gmtime (t + utc_offset z t))"
  "tm_min (localtime z t) = tm_min (gmtime (t + utc_offset z t))"
  "tm_hour (localtime z t) = tm_hour (gmtime (t + utc_offset z t))"
  "tm_mday (localtime z t) = tm_mday (gmtime (t + utc_offset z t))"
  "tm_mon (localtime z t) = tm_mon (gmtime (t + utc_offset z t))"
  "tm_year (localtime z t) = tm_year (gmtime (t + utc_offset z t))"
  by (simp_all add: localtime_def)

lemma mktime_set_time:
  "mktime z ((localtime z t)\<lparr>tm_hour := h, tm_min := mi, tm_sec := s\<rparr>) =
     86400 * ((t + utc_offset z t) div 86400) + 3600 * h + 60 * mi + s - utc_offset z t"
proof -
  have "timegm ((localtime z t)\<lparr>tm_hour := h, tm_min := mi, tm_sec := s\<rparr>) =
      timegm ((gmtime (t + utc_offset z t))\<lparr>tm_hour := h, tm_min := mi, tm_sec := s\<rparr>)"
    by (simp add: timegm_def localtime_def)
  then show ?thesis
    by (simp add: mktime_def timegm_set_time localtime_isdst utc_offset_def)
qed

lemma mktime_localtime: "mktime z (localtime z t) = t"
proof -
  have "timegm (localtime z t) = timegm (gmtime (t + utc_offset z t))"
    by (simp add: timegm_def localtime_def)
  then show ?thesis
    by (simp add: mktime_def timegm_gmtime localtime_isdst utc_offset_def)
qed


section \<open>Facts about the daily sink\<close>

lemma next_rotation_tp_candidate:
  "next_rotation_tp z s now =
     (if from_time_t (rotation_candidate z s now) > now
      then from_time_t (rotation_candidate z s now)
      else wrap64 (from_time_t (rotation_candidate z s now) + hours 24))"
  by (simp add: next_rotation_tp_def rotation_candidate_def Let_def)

lemma rotation_candidate_eq:
  "rotation_candidate z s now =
     86400 * ((to_time_t now + utc_offset z (to_time_t now)) div 86400) +
     3600 * d_rotation_h s + 60 * d_rotation_m s - utc_offset z (to_time_t now)"
  by (simp add: rotation_candidate_def mktime_set_time)

lemma rotation_candidate_bounds:
  assumes "0 \<le> d_rotation_h s" "d_rotation_h s \<le> 23" "0 \<le> d_rotation_m s" "d_rotation_m s \<le> 59"
  shows "to_time_t now - 86399 \<le> rotation_candidate z s now"
    and "rotation_candidate z s now \<le> to_time_t now + 86340"
proof -
  define L where "L = to_time_t now + utc_offset z (to_time_t now)"
  have "86400 * (L div 86400) + L mod 86400 = L"
    by simp
  moreover have "0 \<le> L mod 86400" "L mod 86400 < 86400"
    by simp_all
  ultimately have "L - 86399 \<le> 86400 * (L div 86400)" "86400 * (L div 86400) \<le> L"
    by linarith+
  then show "to_time_t now - 86399 \<le> rotation_candidate z s now"
    and "rotation_candidate z s now \<le> to_time_t now + 86340"
    using assms unfolding rotation_candidate_eq L_def [symmetric] by (simp_all add: L_def)
qed

lemma rotation_candidate_ticks:
  assumes "0 \<le> d_rotation_h s" "d_rotation_h s \<le> 23" "0 \<le> d_rotation_m s" "d_rotation_m s \<le> 59"
    and "clock_safe now"
  shows "now - hours 24 < rotation_candidate z s now * ticks_per_second"
    and "rotation_candidate z s now * ticks_per_second < now + hours 24"
    and "from_time_t (rotation_candidate z s now) = rotation_candidate z s now * ticks_per_second"
proof -
  define c where "c = rotation_candidate z s now"
  define t where "t = to_time_t now"
  have b: "t - 86399 \<le> c" "c \<le> t + 86340"
    unfolding c_def t_def by (rule rotation_candidate_bounds [OF assms(1-4)])+
  have tb: "t * 1000000000 - 1000000000 < now" "now < t * 1000000000 + 1000000000"
    using to_time_t_bounds [of now] by (simp_all add: t_def ticks_per_second_def)
  show lo: "now - hours 24 < c * ticks_per_second"
    using b tb by (simp add: hours_def ticks_per_second_def)
  show hi: "c * ticks_per_second < now + hours 24"
    using b tb by (simp add: hours_def ticks_per_second_def)
  show "from_time_t c = c * ticks_per_second"
    unfolding from_time_t_def using lo hi assms(5)
    by (intro wrap64_id) (simp_all add: clock_safe_def)
qed

lemma next_rotation_tp_safe:
  assumes "0 \<le> d_rotation_h s" "d_rotation_h s \<le> 23" "0 \<le> d_rotation_m s" "d_rotation_m s \<le> 59"
    and "clock_safe now"
  shows "next_rotation_tp z s now =
     (if now < rotation_candidate z s now * ticks_per_second
      then rotation_candidate z s now * ticks_per_second
      else (rotation_candidate z s now + 86400) * ticks_per_second)"
proof -
  define c where "c = rotation_candidate z s now"
  note ct = rotation_candidate_ticks [OF assms, of z, folded c_def]
  have "wrap64 (c * ticks_per_second + hours 24) = (c + 86400) * ticks_per_second"
    if "c * ticks_per_second \<le> now"
  proof -
    have "wrap64 (c * ticks_per_second + hours 24) = c * ticks_per_second + hours 24"
      using that ct(1) assms(5) by (intro wrap64_id) (simp_all add: clock_safe_def)
    then show ?thesis
      by (simp add: hours_def algebra_simps)
  qed
  then show ?thesis
    unfolding next_rotation_tp_candidate c_def [symmetric] ct(3) by simp
qed

lemma next_rotation_tp_future:
  assumes "0 \<le> d_rotation_h s" "d_rotation_h s \<le> 23" "0 \<le> d_rotation_m s" "d_rotation_m s \<le> 59"
    and "clock_safe now"
  shows "now < next_rotation_tp z s now"
proof -
  define c where "c = rotation_candidate z s now"
  have "to_time_t now + 1 \<le> c + 86400"
    using rotation_candidate_bounds(1) [OF assms(1-4), of now z] by (simp add: c_def)
  then have "(to_time_t now + 1) * ticks_per_second \<le> (c + 86400) * ticks_per_second"
    by (simp add: ticks_per_second_def)
  moreover have "now < (to_time_t now + 1) * ticks_per_second"
    using to_time_t_bounds(2) [of now] by (simp add: algebra_simps)
  ultimately have "now < (c + 86400) * ticks_per_second"
    by simp
  then show ?thesis
    unfolding next_rotation_tp_safe [OF assms] c_def [symmetric] by simp
qed









lemma fh_open_effect:
  assumes "fh_open fh fname trunc os = (ex, fh', os')"
  shows "calls os' = calls os @ [Sys_open fname trunc]"
    and "fh_filename fh' = fname"
    and "ex = None \<Longrightarrow> fh_is_open fh'"
    and "ex = None \<Longrightarrow> files os' = (files os)(fname \<mapsto>
           (if trunc then [] else case files os fname of None \<Rightarrow> [] | Some c \<Rightarrow> c))"
    and "ex \<noteq> None \<Longrightarrow> files os' = files os"
    and "remove_fails os' = remove_fails os" and "rename_fails os' = rename_fails os"
    and "open_fails os' = open_fails os"
  using assms by (auto simp: fh_open_def fh_close_def Let_def split: if_splits)

lemma fh_write_effect:
  assumes "fh_write fh msg os = (ex, os')"
  shows "calls os' = calls os @ (if ex = None then [Sys_write (fh_filename fh) msg] else [])"
    and "ex = None \<Longrightarrow> files os' = (files os)(fh_filename fh \<mapsto>
           (case files os (fh_filename fh) of None \<Rightarrow> [] | Some c \<Rightarrow> c) @ msg)"
    and "ex \<noteq> None \<Longrightarrow> files os' = files os"
    and "ex = None \<longleftrightarrow> fh_is_open fh"
  using assms by (auto simp: fh_write_def split: if_splits)

lemma daily_sink_it_effect:
  assumes r: "daily_sink_it z FileNameCalc s msg now1 now2 now3 os = (ex, s', os')"
  shows "calls os' = calls os @
           (if d_rotation_tp s \<le> now1
            then [Sys_open (FileNameCalc z (d_base_filename s) (d_extension s) now2) False] else []) @
           (if ex = None then [Sys_write (fh_filename (d_file_helper s')) msg] else [])"
    and "fh_filename (d_file_helper s') =
           (if d_rotation_tp s \<le> now1 then FileNameCalc z (d_base_filename s) (d_extension s) now2
            else fh_filename (d_file_helper s))"
    and "files os' =
           (if ex = None
            then (files os)(fh_filename (d_file_helper s') \<mapsto>
                   (case files os (fh_filename (d_file_helper s')) of None \<Rightarrow> [] | Some c \<Rightarrow> c) @ msg)
            else files os)"
proof -
  let ?name = "FileNameCalc z (d_base_filename s) (d_extension s) now2"
  show "calls os' = calls os @
           (if d_rotation_tp s \<le> now1 then [Sys_open ?name False] else []) @
           (if ex = None then [Sys_write (fh_filename (d_file_helper s')) msg] else [])"
    using r
    by (auto simp: daily_sink_it_def daily_write_def fh_open_def fh_write_def fh_close_def Let_def
        split: if_splits prod.splits option.splits)
  show "fh_filename (d_file_helper s') =
           (if d_rotation_tp s \<le> now1 then ?name else fh_filename (d_file_helper s))"
    using r
    by (auto simp: daily_sink_it_def daily_write_def fh_open_def fh_write_def fh_close_def Let_def
        split: if_splits prod.splits option.splits)
  show "files os' =
           (if ex = None
            then (files os)(fh_filename (d_file_helper s') \<mapsto>
                   (case files os (fh_filename (d_file_helper s')) of None \<Rightarrow> [] | Some c \<Rightarrow> c) @ msg)
            else files os)"
    using r
    by (auto simp: daily_sink_it_def daily_write_def fh_open_def fh_write_def fh_close_def Let_def
        fun_eq_iff split: if_splits prod.splits option.splits)
qed

section \<open>Facts about the dated file names\<close>

lemma length_show_nat_2: "n < 100 \<Longrightarrow> length (zero_pad 2 (show_nat n)) = 2"
proof (cases "n < 10")
  case True
  then show ?thesis
    by (subst show_nat.simps) (simp add: zero_pad_def)
next
  case False
  assume "n < 100"
  with False have "n div 10 < 10" by simp
  then have "show_nat (n div 10) = [digit_char (n div 10)]"
    by (subst show_nat.simps) simp
  with False show ?thesis
    by (subst show_nat.simps) (simp add: zero_pad_def)
qed

lemma length_fmt_0d_2: "0 \<le> n \<Longrightarrow> n < 100 \<Longrightarrow> length (fmt_0d 2 n) = 2"
  using length_show_nat_2 [of "nat n"] by (simp add: fmt_0d_def)

lemma read_nat_append: "read_nat (xs @ ys) = foldl (\<lambda>a c. 10 * a + digit_val c) (read_nat xs) ys"
  by (simp add: read_nat_def)

lemma read_nat_zeros: "read_nat (replicate k CHR ''0'') = 0"
proof (induction k)
  case 0
  show ?case by (simp add: read_nat_def)
next
  case (Suc k)
  have "replicate (Suc k) CHR ''0'' = replicate k CHR ''0'' @ [CHR ''0'']"
    by (simp add: replicate_append_same)
  then have "read_nat (replicate (Suc k) CHR ''0'') =
      10 * read_nat (replicate k CHR ''0'') + digit_val CHR ''0''"
    by (simp only: read_nat_append) simp
  with Suc show ?case by (simp add: digit_val_def)
qed

lemma read_nat_zero_pad: "read_nat (zero_pad w s) = read_nat s"
  by (simp add: zero_pad_def read_nat_append read_nat_zeros) (simp add: read_nat_def)

lemma digit_char_not_minus: "digit_char d \<noteq> CHR ''-''"
proof -
  have "d mod 10 < 10" by simp
  then have "d mod 10 = 0 \<or> d mod 10 = 1 \<or> d mod 10 = 2 \<or> d mod 10 = 3 \<or> d mod 10 = 4 \<or>
      d mod 10 = 5 \<or> d mod 10 = 6 \<or> d mod 10 = 7 \<or> d mod 10 = 8 \<or> d mod 10 = 9"
    by arith
  then show ?thesis
    unfolding digit_char_def by (elim disjE) simp_all
qed

lemma show_nat_no_minus: "CHR ''-'' \<notin> set (show_nat n)"
proof (induction n rule: show_nat.induct)
  case (1 n)
  show ?case
  proof (cases "n < 10")
    case True
    then show ?thesis
      using digit_char_not_minus [of n] by (subst show_nat.simps) auto
  next
    case False
    with 1 have "CHR ''-'' \<notin> set (show_nat (n div 10))" by simp
    with False show ?thesis
      using digit_char_not_minus [of "n mod 10"] by (subst show_nat.simps) auto
  qed
qed

lemma zero_pad_no_minus: "CHR ''-'' \<notin> set (zero_pad w (show_nat n))"
  using show_nat_no_minus [of n] by (auto simp: zero_pad_def)

lemma fmt_0d_inj: "fmt_0d w a = fmt_0d w b \<Longrightarrow> a = b"
proof -
  assume eq: "fmt_0d w a = fmt_0d w b"
  have pos: "a = b" if "0 \<le> a" "0 \<le> b"
  proof -
    from eq that
    have "read_nat (zero_pad w (show_nat (nat a))) = read_nat (zero_pad w (show_nat (nat b)))"
      by (simp add: fmt_0d_def)
    then have "nat a = nat b"
      by (simp add: read_nat_zero_pad read_show_nat)
    with that show ?thesis by simp
  qed
  have neg: "a = b" if "a < 0" "b < 0"
  proof -
    from eq that
    have "read_nat (zero_pad (w - 1) (show_nat (nat (- a)))) =
        read_nat (zero_pad (w - 1) (show_nat (nat (- b))))"
      by (simp add: fmt_0d_def)
    then have "nat (- a) = nat (- b)"
      by (simp add: read_nat_zero_pad read_show_nat)
    with that show ?thesis by simp
  qed
  have mixed: False if "a < 0" "0 \<le> b" "fmt_0d w a = fmt_0d w b" for a b
  proof -
    from that have "CHR ''-'' \<in> set (zero_pad w (show_nat (nat b)))"
      by (simp add: fmt_0d_def) (metis list.set_intros(1))
    with zero_pad_no_minus show False by blast
  qed
  show ?thesis
    using pos neg mixed [of a b] mixed [of b a] eq by (cases "0 \<le> a"; cases "0 \<le> b") auto
qed

lemma month_len_table:
  "\<forall>k\<in>{..<12::nat}. (28::int) \<le> (if k = 1 \<and> is_leap y then 29
       else [31, 28, 31, 30, 31, 30, 31, 31, 30, 31, 30, 31] ! k) \<and>
     (if k = 1 \<and> is_leap y then 29
       else [31, 28, 31, 30, 31, 30, 31, 31, 30, 31, 30, 31] ! k) \<le> (31::int)"
  by (simp add: lessThan_nat_numeral lessThan_Suc)

lemma month_len_bounds: "28 \<le> month_len y m \<and> month_len y m \<le> 31"
proof -
  have "m mod 12 \<in> {..<12}" by simp
  with month_len_table [of y] show ?thesis
    unfolding month_len_def by blast
qed


lemma days_before_month_numeral:
  "days_before_month y (numeral k) =
     days_before_month y (pred_numeral k) + month_len y (pred_numeral k)"
  by (simp add: numeral_eq_Suc)

lemma days_before_month_11: "days_before_month y 11 = year_len y - 31"
  by (simp add: days_before_month_numeral month_len_def year_len_def)

lemma month_from_bounds:
  "month_from y m d = (m', d') \<Longrightarrow> 0 \<le> d \<Longrightarrow> m \<le> 11 \<Longrightarrow>
     0 \<le> d' \<and> m' \<le> 11 \<and> (m' < 11 \<longrightarrow> d' < month_len y m')"
proof (induction y m d rule: month_from.induct)
  case (1 y m d)
  show ?case
  proof (cases "m < 11 \<and> month_len y m \<le> d")
    case True
    with "1.prems" have "month_from y (Suc m) (d - month_len y m) = (m', d')"
      by (subst (asm) month_from.simps) simp
    from "1.IH" [OF True this] True show ?thesis
      by simp
  next
    case False
    with "1.prems" have "m' = m" "d' = d"
      by (subst (asm) month_from.simps, simp)+
    with False "1.prems" show ?thesis by auto
  qed
qed

lemma gmtime_ranges:
  "0 \<le> tm_mon (gmtime t) \<and> tm_mon (gmtime t) \<le> 11 \<and>
   1 \<le> tm_mday (gmtime t) \<and> tm_mday (gmtime t) \<le> 31 \<and>
   0 \<le> tm_hour (gmtime t) \<and> tm_hour (gmtime t) \<le> 23 \<and>
   0 \<le> tm_min (gmtime t) \<and> tm_min (gmtime t) \<le> 59 \<and>
   0 \<le> tm_sec (gmtime t) \<and> tm_sec (gmtime t) \<le> 59"
proof -
  obtain y yday where y: "year_from 1970 (t div 86400) = (y, yday)"
    by (cases "year_from 1970 (t div 86400)") auto
  obtain m mday where m: "month_from y 0 yday = (m, mday)"
    by (cases "month_from y 0 yday") auto
  note ys = year_from_sound [OF y]
  from ys have y0: "0 \<le> yday" by simp
  note mb = month_from_bounds [OF m y0]
  note ms = month_from_sound [OF m]
  have md: "mday < 31"
  proof (cases "m < 11")
    case True
    with mb month_len_bounds [of y m] show ?thesis by simp
  next
    case False
    with mb have "m = 11" by simp
    with ms ys days_before_month_11 [of y] show ?thesis by simp
  qed
  define r where "r = t mod 86400"
  have r: "0 \<le> r" "r < 86400"
    by (simp_all add: r_def)
  then have h: "0 \<le> r div 3600" "r div 3600 \<le> 23" "0 \<le> r div 60 mod 60" "r div 60 mod 60 \<le> 59"
    "0 \<le> r mod 60" "r mod 60 \<le> 59"
    using zdiv_mono1 [of r 86399 3600] by (simp_all add: pos_imp_zdiv_nonneg_iff)
  have lt: "gmtime t = \<lparr>tm_sec = r mod 60, tm_min = r div 60 mod 60, tm_hour = r div 3600,
      tm_mday = mday + 1, tm_mon = int m, tm_year = y - 1900, tm_isdst = 0\<rparr>"
    by (simp add: gmtime_def y m r_def Let_def)
  show ?thesis
    unfolding lt using mb md h by simp
qed

lemma localtime_ranges:
  "0 \<le> tm_mon (localtime z t) \<and> tm_mon (localtime z t) \<le> 11 \<and>
   1 \<le> tm_mday (localtime z t) \<and> tm_mday (localtime z t) \<le> 31 \<and>
   0 \<le> tm_hour (localtime z t) \<and> tm_hour (localtime z t) \<le> 23 \<and>
   0 \<le> tm_min (localtime z t) \<and> tm_min (localtime z t) \<le> 59 \<and>
   0 \<le> tm_sec (localtime z t) \<and> tm_sec (localtime z t) \<le> 59"
  unfolding localtime_fields by (rule gmtime_ranges)

lemma default_name_fields:
  assumes eq: "default_daily_calc_filename z b e now1 = default_daily_calc_filename z b e now2"
  shows "tm_year (localtime z (os_time now1)) = tm_year (localtime z (os_time now2)) \<and>
         tm_mon (localtime z (os_time now1)) = tm_mon (localtime z (os_time now2)) \<and>
         tm_mday (localtime z (os_time now1)) = tm_mday (localtime z (os_time now2)) \<and>
         tm_hour (localtime z (os_time now1)) = tm_hour (localtime z (os_time now2)) \<and>
         tm_min (localtime z (os_time now1)) = tm_min (localtime z (os_time now2))"
proof -
  let ?a = "localtime z (os_time now1)" and ?b = "localtime z (os_time now2)"
  note ra = localtime_ranges [of z "os_time now1"] and rb = localtime_ranges [of z "os_time now2"]
  define Y1 M1 D1 H1 N1 where "Y1 = fmt_0d 4 (tm_year ?a + 1900)" and "M1 = fmt_0d 2 (tm_mon ?a + 1)"
    and "D1 = fmt_0d 2 (tm_mday ?a)" and "H1 = fmt_0d 2 (tm_hour ?a)" and "N1 = fmt_0d 2 (tm_min ?a)"
  define Y2 M2 D2 H2 N2 where "Y2 = fmt_0d 4 (tm_year ?b + 1900)" and "M2 = fmt_0d 2 (tm_mon ?b + 1)"
    and "D2 = fmt_0d 2 (tm_mday ?b)" and "H2 = fmt_0d 2 (tm_hour ?b)" and "N2 = fmt_0d 2 (tm_min ?b)"
  have len: "length M1 = 2" "length D1 = 2" "length H1 = 2" "length N1 = 2"
    "length M2 = 2" "length D2 = 2" "length H2 = 2" "length N2 = 2"
    unfolding M1_def D1_def H1_def N1_def M2_def D2_def H2_def N2_def
    using ra rb by (simp_all add: length_fmt_0d_2)
  from eq have "Y1 @ (''-'' @ M1 @ ''-'' @ D1 @ ''_'' @ H1 @ ''-'' @ N1 @ ''.'' @ e) =
      Y2 @ (''-'' @ M2 @ ''-'' @ D2 @ ''_'' @ H2 @ ''-'' @ N2 @ ''.'' @ e)"
    by (simp add: default_daily_calc_filename_def Let_def Y1_def M1_def D1_def H1_def N1_def
        Y2_def M2_def D2_def H2_def N2_def)
  then have y: "Y1 = Y2" and rest: "M1 @ ''-'' @ D1 @ ''_'' @ H1 @ ''-'' @ N1 @ ''.'' @ e =
      M2 @ ''-'' @ D2 @ ''_'' @ H2 @ ''-'' @ N2 @ ''.'' @ e"
    using len by (simp_all add: append_eq_append_conv)
  from rest have m: "M1 = M2" and rest2: "D1 @ ''_'' @ H1 @ ''-'' @ N1 @ ''.'' @ e =
      D2 @ ''_'' @ H2 @ ''-'' @ N2 @ ''.'' @ e"
    using len by (simp_all add: append_eq_append_conv)
  from rest2 have d: "D1 = D2" and rest3: "H1 @ ''-'' @ N1 @ ''.'' @ e = H2 @ ''-'' @ N2 @ ''.'' @ e"
    using len by (simp_all add: append_eq_append_conv)
  from rest3 have h: "H1 = H2" and n: "N1 = N2"
    using len by (simp_all add: append_eq_append_conv)
  from y have "tm_year ?a + 1900 = tm_year ?b + 1900"
    unfolding Y1_def Y2_def by (rule fmt_0d_inj)
  moreover from m have "tm_mon ?a + 1 = tm_mon ?b + 1"
    unfolding M1_def M2_def by (rule fmt_0d_inj)
  moreover from d have "tm_mday ?a = tm_mday ?b"
    unfolding D1_def D2_def by (rule fmt_0d_inj)
  moreover from h have "tm_hour ?a = tm_hour ?b"
    unfolding H1_def H2_def by (rule fmt_0d_inj)
  moreover from n have "tm_min ?a = tm_min ?b"
    unfolding N1_def N2_def by (rule fmt_0d_inj)
  ultimately show ?thesis by simp
qed

lemma dateonly_name_fields:
  assumes eq: "dateonly_daily_calc_filename z b e now1 = dateonly_daily_calc_filename z b e now2"
  shows "tm_year (localtime z (os_time now1)) = tm_year (localtime z (os_time now2)) \<and>
         tm_mon (localtime z (os_time now1)) = tm_mon (localtime z (os_time now2)) \<and>
         tm_mday (localtime z (os_time now1)) = tm_mday (localtime z (os_time now2))"
proof -
  let ?a = "localtime z (os_time now1)" and ?b = "localtime z (os_time now2)"
  note ra = localtime_ranges [of z "os_time now1"] and rb = localtime_ranges [of z "os_time now2"]
  define Y1 M1 D1 where "Y1 = fmt_0d 4 (tm_year ?a + 1900)" and "M1 = fmt_0d 2 (tm_mon ?a + 1)"
    and "D1 = fmt_0d 2 (tm_mday ?a)"
  define Y2 M2 D2 where "Y2 = fmt_0d 4 (tm_year ?b + 1900)" and "M2 = fmt_0d 2 (tm_mon ?b + 1)"
    and "D2 = fmt_0d 2 (tm_mday ?b)"
  have len: "length M1 = 2" "length D1 = 2" "length M2 = 2" "length D2 = 2"
    unfolding M1_def D1_def M2_def D2_def
    using ra rb by (simp_all add: length_fmt_0d_2)
  from eq have "Y1 @ (''-'' @ M1 @ ''-'' @ D1 @ ''.'' @ e) = Y2 @ (''-'' @ M2 @ ''-'' @ D2 @ ''.'' @ e)"
    by (simp add: dateonly_daily_calc_filename_def Let_def Y1_def M1_def D1_def
        Y2_def M2_def D2_def)
  then have y: "Y1 = Y2" and rest: "M1 @ ''-'' @ D1 @ ''.'' @ e = M2 @ ''-'' @ D2 @ ''.'' @ e"
    using len by (simp_all add: append_eq_append_conv)
  from rest have m: "M1 = M2" and d: "D1 = D2"
    using len by (simp_all add: append_eq_append_conv)
  from y have "tm_year ?a + 1900 = tm_year ?b + 1900"
    unfolding Y1_def Y2_def by (rule fmt_0d_inj)
  moreover from m have "tm_mon ?a + 1 = tm_mon ?b + 1"
    unfolding M1_def M2_def by (rule fmt_0d_inj)
  moreover from d have "tm_mday ?a = tm_mday ?b"
    unfolding D1_def D2_def by (rule fmt_0d_inj)
  ultimately show ?thesis by simp
qed

lemma int_div_ge:
  fixes a p q :: int
  assumes "0 < p" and "q * p \<le> a"
  shows "q \<le> a div p"
proof -
  have "(q * p) div p \<le> a div p"
    using assms by (intro zdiv_mono1) simp_all
  with assms(1) show ?thesis by simp
qed

lemma int_div_lt:
  fixes a p q :: int
  assumes "0 < p" and "a < q * p"
  shows "a div p < q"
proof (rule ccontr)
  assume "\<not> a div p < q"
  then have "q * p \<le> (a div p) * p"
    using assms(1) by (intro mult_right_mono) simp_all
  moreover have "(a div p) * p = a - a mod p"
    by (simp add: minus_mod_eq_div_mult)
  moreover have "0 \<le> a mod p"
    using assms(1) by simp
  ultimately show False using assms(2) by simp
qed

lemma minute_of_fields:
  assumes "tm_year (gmtime t1) = tm_year (gmtime t2)"
    and "tm_mon (gmtime t1) = tm_mon (gmtime t2)"
    and "tm_mday (gmtime t1) = tm_mday (gmtime t2)"
    and "tm_hour (gmtime t1) = tm_hour (gmtime t2)"
    and "tm_min (gmtime t1) = tm_min (gmtime t2)"
  shows "t1 div 60 = t2 div 60"
proof -
  have sec: "tm_sec (gmtime t) = t mod 60" for t
    using mod_mod_cancel [of 60 86400 t] by (simp add: gmtime_time)
  have "timegm (gmtime t1) - tm_sec (gmtime t1) = timegm (gmtime t2) - tm_sec (gmtime t2)"
    using assms by (simp add: timegm_def)
  then have "t1 - t1 mod 60 = t2 - t2 mod 60"
    by (simp add: timegm_gmtime sec)
  moreover have "t - t mod 60 = 60 * (t div 60)" for t :: int
    by (simp add: minus_mod_eq_mult_div)
  ultimately show ?thesis by simp
qed

lemma day_of_fields:
  assumes "tm_year (gmtime t1) = tm_year (gmtime t2)"
    and "tm_mon (gmtime t1) = tm_mon (gmtime t2)"
    and "tm_mday (gmtime t1) = tm_mday (gmtime t2)"
  shows "t1 div 86400 = t2 div 86400"
  using gmtime_date [of t1] gmtime_date [of t2] assms by simp

text \<open>The instant \<^verbatim>\<open>_next_rotation_tp\<close> returns is a whole minute of local time, in the
  offset of the reading it was computed from; with rotation at 00:00 it is a local midnight.\<close>

lemma next_rotation_tp_aligned:
  assumes "0 \<le> d_rotation_h s" "d_rotation_h s \<le> 23" "0 \<le> d_rotation_m s" "d_rotation_m s \<le> 59"
    and "clock_safe now"
  shows "\<exists>r k. next_rotation_tp z s now = r * ticks_per_second \<and>
           r + utc_offset z (to_time_t now) = 60 * k \<and>
           (d_rotation_h s = 0 \<and> d_rotation_m s = 0 \<longrightarrow> 1440 dvd k)"
proof -
  define c where "c = rotation_candidate z s now"
  define D where "D = (to_time_t now + utc_offset z (to_time_t now)) div 86400"
  define k where "k = 1440 * D + 60 * d_rotation_h s + d_rotation_m s"
  have c: "c + utc_offset z (to_time_t now) = 60 * k"
    by (simp add: c_def rotation_candidate_eq D_def k_def)
  have k: "d_rotation_h s = 0 \<and> d_rotation_m s = 0 \<longrightarrow> 1440 dvd k \<and> 1440 dvd (k + 1440)"
    by (simp add: k_def)
  show ?thesis
  proof (cases "now < c * ticks_per_second")
    case True
    then have "next_rotation_tp z s now = c * ticks_per_second"
      unfolding next_rotation_tp_safe [OF assms] c_def by simp
    with c k show ?thesis by blast
  next
    case False
    then have "next_rotation_tp z s now = (c + 86400) * ticks_per_second"
      unfolding next_rotation_tp_safe [OF assms] c_def by simp
    moreover from c have "(c + 86400) + utc_offset z (to_time_t now) = 60 * (k + 1440)"
      by simp
    ultimately show ?thesis using k by blast
  qed
qed

lemma rotation_names_distinct:
  assumes hm: "0 \<le> d_rotation_h s" "d_rotation_h s \<le> 23" "0 \<le> d_rotation_m s" "d_rotation_m s \<le> 59"
    and safe: "clock_safe tn"
    and off0: "utc_offset z (os_time t0) = utc_offset z (to_time_t tn)"
    and off2: "utc_offset z (os_time t2) = utc_offset z (to_time_t tn)"
    and lt: "t0 < next_rotation_tp z s tn" and ge: "next_rotation_tp z s tn \<le> t2"
  shows "default_daily_calc_filename z b e t0 \<noteq> default_daily_calc_filename z b e t2"
    and "d_rotation_h s = 0 \<Longrightarrow> d_rotation_m s = 0 \<Longrightarrow>
      dateonly_daily_calc_filename z b e t0 \<noteq> dateonly_daily_calc_filename z b e t2"
proof -
  define off where "off = utc_offset z (to_time_t tn)"
  define p :: int where "p = 1000000000"
  have p: "0 < p" by (simp add: p_def)
  obtain r k where r: "next_rotation_tp z s tn = r * p" and k: "r + off = 60 * k"
    and d: "d_rotation_h s = 0 \<and> d_rotation_m s = 0 \<longrightarrow> 1440 dvd k"
    using next_rotation_tp_aligned [OF hm safe, of z]
    unfolding off_def ticks_per_second_def p_def by blast
  have lo: "os_time t0 < r"
    using int_div_lt [of p t0 r] lt p unfolding r by (simp add: os_time_def ticks_per_second_def p_def)
  have hi: "r \<le> os_time t2"
    using int_div_ge [of p r t2] ge p unfolding r by (simp add: os_time_def ticks_per_second_def p_def)
  define L0 L2 where "L0 = os_time t0 + off" and "L2 = os_time t2 + off"
  have L: "L0 < 60 * k" "60 * k \<le> L2"
    using lo hi k by (simp_all add: L0_def L2_def)
  have l0: "localtime z (os_time t0) = (gmtime L0)\<lparr>tm_isdst := tm_isdst (localtime z (os_time t0))\<rparr>"
    and l2: "localtime z (os_time t2) = (gmtime L2)\<lparr>tm_isdst := tm_isdst (localtime z (os_time t2))\<rparr>"
    by (simp_all add: localtime_def L0_def L2_def off_def off0 off2)
  have m0: "L0 div 60 < k"
    using int_div_lt [of 60 L0 k] L(1) by (simp add: mult.commute)
  have m2: "k \<le> L2 div 60"
    using int_div_ge [of 60 k L2] L(2) by (simp add: mult.commute)
  show "default_daily_calc_filename z b e t0 \<noteq> default_daily_calc_filename z b e t2"
  proof
    assume "default_daily_calc_filename z b e t0 = default_daily_calc_filename z b e t2"
    from default_name_fields [OF this] have "L0 div 60 = L2 div 60"
      by (intro minute_of_fields) (simp_all add: localtime_fields L0_def L2_def off_def off0 off2)
    with m0 m2 show False by simp
  qed
  assume "d_rotation_h s = 0" "d_rotation_m s = 0"
  with d obtain j where j: "k = 1440 * j"
    by (auto simp: dvd_def)
  have d0: "L0 div 86400 < j"
    using int_div_lt [of 86400 L0 j] L(1) by (simp add: j)
  have d2: "j \<le> L2 div 86400"
    using int_div_ge [of 86400 j L2] L(2) by (simp add: j)
  show "dateonly_daily_calc_filename z b e t0 \<noteq> dateonly_daily_calc_filename z b e t2"
  proof
    assume "dateonly_daily_calc_filename z b e t0 = dateonly_daily_calc_filename z b e t2"
    from dateonly_name_fields [OF this] have "L0 div 86400 = L2 div 86400"
      by (intro day_of_fields) (simp_all add: localtime_fields L0_def L2_def off_def off0 off2)
    with d0 d2 show False by simp
  qed
qed

lemma daily_ctor_effect:
  assumes "daily_file_sink_ctor z FileNameCalc filename rotation_hour rotation_minute now1 now2 os =
        (r, os') \<or>
      daily_file_sink_ctor2 z FileNameCalc base_filename extension rotation_hour rotation_minute
          now1 now2 os = (r, os')"
  shows "calls os' = calls os \<or> (\<exists>name. calls os' = calls os @ [Sys_open name False])"
    and "\<forall>p c. files os p = Some c \<longrightarrow> files os' p = Some c"
  using assms
  by (auto simp: daily_file_sink_ctor_def daily_file_sink_ctor2_def Let_def fh_open_def
      split: if_splits prod.splits option.splits)

lemma next_rotation_tp_cong:
  "d_rotation_h s = d_rotation_h s' \<Longrightarrow> d_rotation_m s = d_rotation_m s' \<Longrightarrow>
     next_rotation_tp z s now = next_rotation_tp z s' now"
  by (simp add: next_rotation_tp_def)

lemma daily_ctor_sink:
  assumes "daily_file_sink_ctor z FileNameCalc filename rotation_hour rotation_minute now1 now2 os =
        (Inr s1, os1) \<or>
      daily_file_sink_ctor2 z FileNameCalc base_filename extension rotation_hour rotation_minute
          now1 now2 os = (Inr s1, os1)"
  shows "d_rotation_h s1 = rotation_hour" and "d_rotation_m s1 = rotation_minute"
    and "0 \<le> rotation_hour" "rotation_hour \<le> 23" "0 \<le> rotation_minute" "rotation_minute \<le> 59"
    and "d_rotation_tp s1 = next_rotation_tp z s1 now1"
    and "fh_filename (d_file_helper s1) = FileNameCalc z (d_base_filename s1) (d_extension s1) now2"
    and "fh_is_open (d_file_helper s1)"
  using assms
  by (auto simp: daily_file_sink_ctor_def daily_file_sink_ctor2_def Let_def fh_open_def
      next_rotation_tp_def split: if_splits prod.splits option.splits)


section \<open>The properties of the specification\<close>

text \<open>
  C1. A path with no dot after its last separator should be split into the whole path as
  base and the default extension (\<open>log\<close>, \<open>txt\<close>); the guards of lines 81 and 250 carry
  the comment "dot is not in filename portion". They test \<open>ndx = npos\<close>, that there is no
  dot at all, so both constructors take the dot of a directory name as the delimiter:
  \<open>a.b/c\<close> becomes base \<open>a\<close> and extension \<open>b/c\<close>. With no dot, \<open>ndx + 1\<close> wraps to 0 and
  the whole path becomes the extension as well, except in the daily sink for a path with
  a \<open>/\<close>.
\<close>

theorem split_dot_in_directory:
  "rotating_split ''a.b/c'' = (''a'', ''b/c'') \<and>
   daily_split ''a.b/c'' = (''a'', ''b/c'') \<and>
   rotating_split ''c'' = (''c'', ''c'') \<and>
   rotating_split ''d/c'' = (''d/c'', ''d/c'') \<and>
   daily_split ''c'' = (''c'', ''c'') \<and>
   daily_split ''d/c'' = (''d/c'', ''txt'')"
  by (simp add: rotating_split_def daily_split_def find_last_of_def npos_def substr_def
      size_t_succ_def)

text \<open>
  C2. Every write adds the record's length to \<open>_current_size\<close>. When the new total (a
  \<^verbatim>\<open>size_t\<close>; the sum itself as long as it stays below \<open>2 ^ 64\<close>) does not exceed
  \<open>_max_size\<close>, the record is appended to the active file and nothing else is called.
  When it does, a write that returns normally has made exactly one rotation pass and one
  truncating reopen before its single append: the counter is the record's length, the
  record is the whole content of the active file, and the old content has moved along
  the chain. An exception of the rotation is passed on and nothing is appended. With no
  failing call the write returns normally.
\<close>

theorem sink_it_rotates_iff_exceeds:
  assumes inv: "rotating_inv s"
  shows
   "(\<not> r_max_size s < r_current_size s + msg_size msg \<longrightarrow>
       rotating_sink_it s msg os =
         (None, s\<lparr>r_current_size := r_current_size s + msg_size msg\<rparr>,
          os\<lparr>files := (files os)(indexed s 0 \<mapsto>
                   (case files os (indexed s 0) of None \<Rightarrow> [] | Some c \<Rightarrow> c) @ msg),
             calls := calls os @ [Sys_write (indexed s 0) msg]\<rparr>)) \<and>
    (r_max_size s < r_current_size s + msg_size msg \<longrightarrow>
       (\<forall>s' os'. rotating_sink_it s msg os = (None, s', os') \<longrightarrow>
           s' = s\<lparr>r_current_size := msg_size msg\<rparr> \<and>
           files os' (indexed s 0) = Some msg \<and>
           (\<forall>i. 1 \<le> i \<and> i \<le> r_max_files s \<longrightarrow>
               files os' (indexed s i) = files os (indexed s (i - 1))) \<and>
           (\<forall>p. (\<forall>i\<le>r_max_files s. p \<noteq> indexed s i) \<longrightarrow> files os' p = files os p) \<and>
           calls os' = calls os @
             rotation_calls (r_base_filename s) (r_extension s) (r_max_files s) os @
             [Sys_open (indexed s 0) True, Sys_write (indexed s 0) msg]) \<and>
       (\<forall>ex s' os'. rotate (s\<lparr>r_current_size := r_current_size s + msg_size msg\<rparr>) os = (Some ex, s', os') \<longrightarrow>
           rotating_sink_it s msg os = (Some ex, s', os')) \<and>
       ((\<forall>p. remove_fails os p = 0) \<and> (\<forall>a b. rename_fails os a b = 0) \<and>
        (\<forall>p. open_fails os p = 0) \<longrightarrow> fst (rotating_sink_it s msg os) = None)) \<and>
    (unat (r_current_size s) + length msg < 2 ^ 64 \<longrightarrow>
       (r_max_size s < r_current_size s + msg_size msg \<longleftrightarrow>
        unat (r_max_size s) < unat (r_current_size s) + length msg))"
proof -
  let ?s1 = "s\<lparr>r_current_size := r_current_size s + msg_size msg\<rparr>"
  have name: "fh_filename (r_file_helper s) = indexed s 0" and op: "fh_is_open (r_file_helper s)"
    using inv by (simp_all add: rotating_inv_def indexed_def)
  have inv1: "rotating_inv ?s1"
    using inv by (simp add: rotating_inv_def)
  have idx1: "indexed ?s1 = indexed s"
    by (simp add: indexed_def fun_eq_iff)
  have A: "rotating_sink_it s msg os =
         (None, ?s1,
          os\<lparr>files := (files os)(indexed s 0 \<mapsto>
                   (case files os (indexed s 0) of None \<Rightarrow> [] | Some c \<Rightarrow> c) @ msg),
             calls := calls os @ [Sys_write (indexed s 0) msg]\<rparr>)"
    if "\<not> r_max_size s < r_current_size s + msg_size msg"
    using that name op by (simp add: rotating_sink_it_def Let_def rotating_write_open)
  have B: "s' = s\<lparr>r_current_size := msg_size msg\<rparr> \<and>
           files os' (indexed s 0) = Some msg \<and>
           (\<forall>i. 1 \<le> i \<and> i \<le> r_max_files s \<longrightarrow>
               files os' (indexed s i) = files os (indexed s (i - 1))) \<and>
           (\<forall>p. (\<forall>i\<le>r_max_files s. p \<noteq> indexed s i) \<longrightarrow> files os' p = files os p) \<and>
           calls os' = calls os @
             rotation_calls (r_base_filename s) (r_extension s) (r_max_files s) os @
             [Sys_open (indexed s 0) True, Sys_write (indexed s 0) msg]"
    if big: "r_max_size s < r_current_size s + msg_size msg"
      and res: "rotating_sink_it s msg os = (None, s', os')" for s' os'
  proof -
    from big res obtain s2 os2 where rot: "rotate ?s1 os = (None, s2, os2)"
      and w: "rotating_write (s2\<lparr>r_current_size := msg_size msg\<rparr>) msg os2 = (None, s', os')"
      by (auto simp: rotating_sink_it_def Let_def split: prod.splits option.splits)
    note r = rotate_success [OF inv1 rot, unfolded idx1, simplified]
    from r have s2: "s2 = ?s1" by simp
    have inj: "\<And>i j. indexed s i = indexed s j \<Longrightarrow> i = j"
      unfolding indexed_def by (rule calc_filename_inj)
    from w s2 name op have s': "s' = s\<lparr>r_current_size := msg_size msg\<rparr>"
      and os': "os' = os2\<lparr>files := (files os2)(indexed s 0 \<mapsto>
                   (case files os2 (indexed s 0) of None \<Rightarrow> [] | Some c \<Rightarrow> c) @ msg),
             calls := calls os2 @ [Sys_write (indexed s 0) msg]\<rparr>"
      by (simp_all add: rotating_write_open)
    have f0: "files os' (indexed s 0) = Some msg"
      using os' r by simp
    have fi: "files os' (indexed s i) = files os (indexed s (i - 1))"
      if "1 \<le> i" "i \<le> r_max_files s" for i
      using that os' r inj [of i 0] by auto
    have fp: "files os' p = files os p" if "\<forall>i\<le>r_max_files s. p \<noteq> indexed s i" for p
      using that os' r by auto
    have c: "calls os' = calls os @
             rotation_calls (r_base_filename s) (r_extension s) (r_max_files s) os @
             [Sys_open (indexed s 0) True, Sys_write (indexed s 0) msg]"
      using os' r by simp
    show ?thesis
      using s' f0 fi fp c by simp
  qed
  have C: "rotating_sink_it s msg os = (Some ex, s', os')"
    if "r_max_size s < r_current_size s + msg_size msg" "rotate ?s1 os = (Some ex, s', os')"
    for ex s' os'
    using that by (simp add: rotating_sink_it_def Let_def)
  have D: "fst (rotating_sink_it s msg os) = None"
    if big: "r_max_size s < r_current_size s + msg_size msg"
      and nf: "(\<forall>p. remove_fails os p = 0) \<and> (\<forall>a b. rename_fails os a b = 0) \<and>
        (\<forall>p. open_fails os p = 0)"
  proof -
    obtain r s2 os2 where rot: "rotate ?s1 os = (r, s2, os2)"
      by (cases "rotate ?s1 os") auto
    with rotate_no_faults [of os ?s1] nf have r: "r = None" by simp
    from rotate_success [OF inv1 rot [unfolded r]] have "s2 = ?s1" by simp
    with rot r big op show ?thesis
      by (simp add: rotating_sink_it_def Let_def rotating_write_open)
  qed
  show ?thesis
    using A B C D no_wrap_compare [of "r_current_size s" msg "r_max_size s"] by blast
qed

theorem sink_it_rotates_iff_exceeds_witness:
  "rotating_inv app_sink \<and>
   \<not> r_max_size app_sink < r_current_size app_sink + msg_size ''012345'' \<and>
   rotating_sink_it app_sink ''012345'' app_os =
     (None, app_sink\<lparr>r_current_size := 16\<rparr>,
      app_os\<lparr>files := (files app_os)(''app.log'' \<mapsto> ''0123456789012345''),
         calls := [Sys_write ''app.log'' ''012345'']\<rparr>) \<and>
   r_max_size app_sink < r_current_size app_sink + msg_size ''0123456'' \<and>
   fst (rotating_sink_it app_sink ''0123456'' app_os) = None \<and>
   fst (snd (rotating_sink_it app_sink ''0123456'' app_os)) = app_sink\<lparr>r_current_size := 7\<rparr> \<and>
   files (snd (snd (rotating_sink_it app_sink ''0123456'' app_os))) ''app.log'' = Some ''0123456'' \<and>
   files (snd (snd (rotating_sink_it app_sink ''0123456'' app_os))) ''app.1.log'' =
     Some ''0123456789'' \<and>
   calls (snd (snd (rotating_sink_it app_sink ''0123456'' app_os))) =
     [Sys_remove ''app.2.log'', Sys_rename ''app.1.log'' ''app.2.log'',
      Sys_rename ''app.log'' ''app.1.log'', Sys_open ''app.log'' True,
      Sys_write ''app.log'' ''0123456'']"
proof -
  have inv: "rotating_inv app_sink"
    by (simp add: eval_defs)
  have small: "\<not> r_max_size app_sink < r_current_size app_sink + msg_size ''012345''"
    and big: "r_max_size app_sink < r_current_size app_sink + msg_size ''0123456''"
    by (simp_all add: eval_defs)
  have nf: "(\<forall>p. remove_fails app_os p = 0) \<and> (\<forall>a b. rename_fails app_os a b = 0) \<and>
      (\<forall>p. open_fails app_os p = 0)"
    by (simp add: eval_defs)
  have facts: "indexed app_sink 0 = ''app.log''" "indexed app_sink 1 = ''app.1.log''"
    "files app_os ''app.log'' = Some ''0123456789''" "calls app_os = []"
    "r_current_size app_sink + msg_size ''012345'' = 16" "msg_size ''0123456'' = 7"
    "r_max_files app_sink = 2"
    by (simp_all add: eval_defs)
  have rc: "rotation_calls (r_base_filename app_sink) (r_extension app_sink) (r_max_files app_sink)
      app_os = [Sys_remove ''app.2.log'', Sys_rename ''app.1.log'' ''app.2.log'',
       Sys_rename ''app.log'' ''app.1.log'']"
    by code_simp
  note t1 = sink_it_rotates_iff_exceeds [OF inv, of "''012345''" app_os]
  note t2 = sink_it_rotates_iff_exceeds [OF inv, of "''0123456''" app_os]
  from t1 small facts have one: "rotating_sink_it app_sink ''012345'' app_os =
     (None, app_sink\<lparr>r_current_size := 16\<rparr>,
      app_os\<lparr>files := (files app_os)(''app.log'' \<mapsto> ''0123456789012345''),
         calls := [Sys_write ''app.log'' ''012345'']\<rparr>)"
    by simp
  obtain r s' os' where res: "rotating_sink_it app_sink ''0123456'' app_os = (r, s', os')"
    by (cases "rotating_sink_it app_sink ''0123456'' app_os") auto
  from t2 big nf res have r: "r = None"
    by simp
  from t2 big res [unfolded r] have two: "s' = app_sink\<lparr>r_current_size := msg_size ''0123456''\<rparr>"
    "files os' (indexed app_sink 0) = Some ''0123456''"
    "\<forall>i. 1 \<le> i \<and> i \<le> r_max_files app_sink \<longrightarrow>
       files os' (indexed app_sink i) = files app_os (indexed app_sink (i - 1))"
    "calls os' = calls app_os @
       rotation_calls (r_base_filename app_sink) (r_extension app_sink) (r_max_files app_sink) app_os @
       [Sys_open (indexed app_sink 0) True, Sys_write (indexed app_sink 0) ''0123456'']"
    by blast+
  from two(3) facts(7) have "files os' (indexed app_sink 1) = files app_os (indexed app_sink (1 - 1))"
    by simp
  then have moved: "files os' ''app.1.log'' = Some ''0123456789''"
    using facts by simp
  show ?thesis
    using inv small big one two(1,2,4) moved facts rc r by (simp add: res)
qed


text \<open>
  C3. A rotation that returns normally has, for every index \<open>i\<close> from 1 to \<open>_max_files\<close>,
  left at \<open>indexed i\<close> what was at \<open>indexed (i - 1)\<close> before (nothing, when that file
  was absent), has left the file of index 0 empty, and has changed no other path. What was
  at \<open>indexed _max_files\<close> is gone. Its calls are the delete of that last file, the
  renames from the highest index down, and only then the truncating reopen of index 0.
\<close>

theorem rotate_shifts_backup_chain:
  assumes "rotating_inv s" and "rotate s os = (None, s', os')"
  shows "(\<forall>i. 1 \<le> i \<and> i \<le> r_max_files s \<longrightarrow>
            files os' (indexed s i) = files os (indexed s (i - 1))) \<and>
         files os' (indexed s 0) = Some [] \<and>
         (\<forall>p. (\<forall>i\<le>r_max_files s. p \<noteq> indexed s i) \<longrightarrow> files os' p = files os p) \<and>
         calls os' = calls os @
            rotation_calls (r_base_filename s) (r_extension s) (r_max_files s) os @
            [Sys_open (indexed s 0) True]"
  using rotate_success [OF assms] by simp

theorem rotate_shifts_backup_chain_witness:
  "rotating_inv app_sink \<and>
   fst (rotate app_sink app_os) = None \<and>
   files (snd (snd (rotate app_sink app_os))) ''app.2.log'' = Some ''older'' \<and>
   files (snd (snd (rotate app_sink app_os))) ''app.1.log'' = Some ''0123456789'' \<and>
   files (snd (snd (rotate app_sink app_os))) ''app.log'' = Some [] \<and>
   files (snd (snd (rotate app_sink app_os))) ''other.log'' = None \<and>
   calls (snd (snd (rotate app_sink app_os))) =
     [Sys_remove ''app.2.log'', Sys_rename ''app.1.log'' ''app.2.log'',
      Sys_rename ''app.log'' ''app.1.log'', Sys_open ''app.log'' True]"
proof -
  have inv: "rotating_inv app_sink"
    by (simp add: eval_defs)
  obtain s' os' where rot: "rotate app_sink app_os = (None, s', os')"
    by (simp add: eval_defs)
  have idx: "indexed app_sink 0 = ''app.log''" "indexed app_sink 1 = ''app.1.log''"
    "indexed app_sink 2 = ''app.2.log''"
    by (simp_all add: eval_defs)
  have old: "files app_os ''app.log'' = Some ''0123456789''"
    "files app_os ''app.1.log'' = Some ''older''" "files app_os ''other.log'' = None"
    by (simp_all add: eval_defs)
  have rc: "rotation_calls (r_base_filename app_sink) (r_extension app_sink) (r_max_files app_sink) app_os =
      [Sys_remove ''app.2.log'', Sys_rename ''app.1.log'' ''app.2.log'',
       Sys_rename ''app.log'' ''app.1.log'']" "calls app_os = []" "r_max_files app_sink = 2"
    by code_simp+
  have other: "\<forall>i\<le>r_max_files app_sink. ''other.log'' \<noteq> indexed app_sink i"
    by (simp add: eval_defs)
  note t = rotate_shifts_backup_chain [OF inv rot]
  from t have "files os' (indexed app_sink 1) = files app_os (indexed app_sink (1 - 1))"
    using rc(3) by simp
  then have a1: "files os' ''app.1.log'' = Some ''0123456789''"
    using idx old by simp
  from t have "files os' (indexed app_sink 2) = files app_os (indexed app_sink (2 - 1))"
    using rc(3) by simp
  then have a2: "files os' ''app.2.log'' = Some ''older''"
    using idx old by simp
  from t other have a3: "files os' ''other.log'' = None"
    using old by simp
  from t have a0: "files os' ''app.log'' = Some []"
    using idx by simp
  from t have c: "calls os' = [Sys_remove ''app.2.log'', Sys_rename ''app.1.log'' ''app.2.log'',
      Sys_rename ''app.log'' ''app.1.log'', Sys_open ''app.log'' True]"
    using idx rc by simp
  show ?thesis
    using inv a0 a1 a2 a3 c by (simp add: rot)
qed


text \<open>
  C4. When a delete or a rename fails during the pass, \<^verbatim>\<open>_rotate\<close> and the write that
  called it end with the exception of that step: its message names the path or paths, its
  code is not 0 and is the one of the failing call, which is the last call issued. The
  files of every index below the failing one and all paths outside the chain are as
  before, and the helper stays closed: no reopen, no append. Conversely a pass that ends
  normally has issued only calls that succeeded.
\<close>

theorem rotation_failure_aborts:
  "(rotate_loop (r_base_filename s) (r_extension s) (r_max_files s) os = (Some ex, os1) \<longrightarrow>
      rotate s os = (Some ex, s\<lparr>r_file_helper := fh_close (r_file_helper s)\<rparr>, os1) \<and>
      (r_max_size s < r_current_size s + msg_size msg \<longrightarrow>
         rotating_sink_it s msg os =
           (Some ex, s\<lparr>r_current_size := r_current_size s + msg_size msg,
                       r_file_helper := fh_close (r_file_helper s)\<rparr>, os1)) \<and>
      (\<exists>i. 1 \<le> i \<and> i \<le> r_max_files s \<and>
           failed_at (r_base_filename s) (r_extension s) i os ex os1 \<and>
           (\<forall>j<i. files os1 (indexed s j) = files os (indexed s j)) \<and>
           (\<forall>p. (\<forall>j\<le>r_max_files s. p \<noteq> indexed s j) \<longrightarrow> files os1 p = files os p) \<and>
           (\<exists>cs. calls os1 = calls os @ cs \<and> list_all is_move cs))) \<and>
   (rotate_loop (r_base_filename s) (r_extension s) (r_max_files s) os = (None, os1) \<longrightarrow>
      calls os1 = calls os @ rotation_calls (r_base_filename s) (r_extension s) (r_max_files s) os \<and>
      list_all (call_ok os) (rotation_calls (r_base_filename s) (r_extension s) (r_max_files s) os))"
proof (intro conjI impI)
  assume l: "rotate_loop (r_base_filename s) (r_extension s) (r_max_files s) os = (Some ex, os1)"
  then show r: "rotate s os = (Some ex, s\<lparr>r_file_helper := fh_close (r_file_helper s)\<rparr>, os1)"
    by (rule rotate_Some_loop)
  from rotate_loop_Some [OF l]
  show "\<exists>i. 1 \<le> i \<and> i \<le> r_max_files s \<and>
           failed_at (r_base_filename s) (r_extension s) i os ex os1 \<and>
           (\<forall>j<i. files os1 (indexed s j) = files os (indexed s j)) \<and>
           (\<forall>p. (\<forall>j\<le>r_max_files s. p \<noteq> indexed s j) \<longrightarrow> files os1 p = files os p) \<and>
           (\<exists>cs. calls os1 = calls os @ cs \<and> list_all is_move cs)"
    by (simp add: indexed_def)
  assume "r_max_size s < r_current_size s + msg_size msg"
  then show "rotating_sink_it s msg os =
           (Some ex, s\<lparr>r_current_size := r_current_size s + msg_size msg,
                       r_file_helper := fh_close (r_file_helper s)\<rparr>, os1)"
    using l by (simp add: rotating_sink_it_def rotate_def Let_def)
next
  assume l: "rotate_loop (r_base_filename s) (r_extension s) (r_max_files s) os = (None, os1)"
  then show "calls os1 = calls os @ rotation_calls (r_base_filename s) (r_extension s) (r_max_files s) os"
    by (rule rotate_loop_calls)
  from l show "list_all (call_ok os) (rotation_calls (r_base_filename s) (r_extension s) (r_max_files s) os)"
    by (rule rotate_loop_ok)
qed

theorem rotation_failure_aborts_witness:
  "fst (rotate_loop (r_base_filename app_sink) (r_extension app_sink) (r_max_files app_sink)
      app_os_locked) =
     Some (Spdlog_ex_errno ''rotating_file_sink: failed renaming app.log to app.1.log'' 13) \<and>
   r_max_size app_sink < r_current_size app_sink + msg_size ''0123456'' \<and>
   fst (rotating_sink_it app_sink ''0123456'' app_os_locked) =
     Some (Spdlog_ex_errno ''rotating_file_sink: failed renaming app.log to app.1.log'' 13) \<and>
   files (snd (snd (rotating_sink_it app_sink ''0123456'' app_os_locked))) ''app.log'' =
     Some ''0123456789'' \<and>
   calls (snd (snd (rotating_sink_it app_sink ''0123456'' app_os_locked))) =
     [Sys_remove ''app.2.log'', Sys_rename ''app.1.log'' ''app.2.log'',
      Sys_rename ''app.log'' ''app.1.log''] \<and>
   fst (rotate_loop (r_base_filename app_sink) (r_extension app_sink) (r_max_files app_sink)
      app_os) = None \<and>
   list_all (call_ok app_os)
     [Sys_remove ''app.2.log'', Sys_rename ''app.1.log'' ''app.2.log'',
      Sys_rename ''app.log'' ''app.1.log'']"
proof -
  let ?ex = "Spdlog_ex_errno ''rotating_file_sink: failed renaming app.log to app.1.log'' 13"
  let ?os1 = "app_os_locked\<lparr>files := [''app.log'' \<mapsto> ''0123456789'', ''app.2.log'' \<mapsto> ''older''],
      errno := 13,
      calls := [Sys_remove ''app.2.log'', Sys_rename ''app.1.log'' ''app.2.log'',
        Sys_rename ''app.log'' ''app.1.log'']\<rparr>"
  have l: "rotate_loop (r_base_filename app_sink) (r_extension app_sink) (r_max_files app_sink)
      app_os_locked = (Some ?ex, ?os1)"
    by (simp add: eval_defs fun_eq_iff)
  have big: "r_max_size app_sink < r_current_size app_sink + msg_size ''0123456''"
    by (simp add: eval_defs)
  obtain os2 where l2: "rotate_loop (r_base_filename app_sink) (r_extension app_sink)
      (r_max_files app_sink) app_os = (None, os2)"
    by (simp add: eval_defs)
  have rc: "rotation_calls (r_base_filename app_sink) (r_extension app_sink) (r_max_files app_sink)
      app_os = [Sys_remove ''app.2.log'', Sys_rename ''app.1.log'' ''app.2.log'',
       Sys_rename ''app.log'' ''app.1.log'']"
    by code_simp
  note t1 = rotation_failure_aborts [of app_sink app_os_locked ?ex ?os1 "''0123456''"]
  note t2 = rotation_failure_aborts [of app_sink app_os ?ex os2 "''0123456''"]
  from t1 l big have sink: "rotating_sink_it app_sink ''0123456'' app_os_locked =
      (Some ?ex, app_sink\<lparr>r_current_size := r_current_size app_sink + msg_size ''0123456'',
                       r_file_helper := fh_close (r_file_helper app_sink)\<rparr>, ?os1)"
    by blast
  from t2 l2 rc have ok: "list_all (call_ok app_os)
     [Sys_remove ''app.2.log'', Sys_rename ''app.1.log'' ''app.2.log'',
      Sys_rename ''app.log'' ''app.1.log'']"
    by simp
  show ?thesis
    using big ok by (simp add: l l2 sink)
qed





text \<open>
  C6. Both constructors of the daily sink, given a rotation hour outside 0..23 or a
  rotation minute outside 0..59, end with the exception "Invalid rotation time in ctor"
  and leave the file system as it was: nothing has been opened. A sink that is
  constructed holds the hour and the minute it was given, unchanged and in range.
\<close>

theorem daily_ctor_rejects_invalid_rotation_time:
  "(rotation_hour < 0 \<or> rotation_hour > 23 \<or> rotation_minute < 0 \<or> rotation_minute > 59 \<longrightarrow>
      daily_file_sink_ctor z FileNameCalc filename rotation_hour rotation_minute now1 now2 os =
        (Inl (Spdlog_ex ''daily_file_sink: Invalid rotation time in ctor''), os) \<and>
      daily_file_sink_ctor2 z FileNameCalc base_filename extension rotation_hour rotation_minute
          now1 now2 os =
        (Inl (Spdlog_ex ''daily_file_sink: Invalid rotation time in ctor''), os)) \<and>
   (\<forall>s os'. daily_file_sink_ctor z FileNameCalc filename rotation_hour rotation_minute now1 now2 os =
        (Inr s, os') \<or>
      daily_file_sink_ctor2 z FileNameCalc base_filename extension rotation_hour rotation_minute
          now1 now2 os = (Inr s, os') \<longrightarrow>
      d_rotation_h s = rotation_hour \<and> d_rotation_m s = rotation_minute \<and>
      0 \<le> rotation_hour \<and> rotation_hour \<le> 23 \<and> 0 \<le> rotation_minute \<and> rotation_minute \<le> 59)"
  by (auto simp: daily_file_sink_ctor_def daily_file_sink_ctor2_def Let_def
      split: if_splits prod.splits option.splits)

theorem daily_ctor_rejects_invalid_rotation_time_witness:
  "((24::int) < 0 \<or> (24::int) > 23 \<or> (0::int) < 0 \<or> (0::int) > 59) \<and>
   daily_file_sink_ctor utc default_daily_calc_filename ''daily.txt'' 24 0
       (instant 2024 1 1 10 0 0) (instant 2024 1 1 10 0 0) (no_faults []) =
     (Inl (Spdlog_ex ''daily_file_sink: Invalid rotation time in ctor''), no_faults []) \<and>
   daily_file_sink_ctor2 utc default_daily_calc_filename ''daily'' ''txt'' 24 0
       (instant 2024 1 1 10 0 0) (instant 2024 1 1 10 0 0) (no_faults []) =
     (Inl (Spdlog_ex ''daily_file_sink: Invalid rotation time in ctor''), no_faults []) \<and>
   calls (no_faults []) = [] \<and> files (no_faults []) = Map.empty \<and>
   isl (fst (daily_file_sink_ctor utc default_daily_calc_filename ''daily.txt'' 23 59
       (instant 2024 1 1 10 0 0) (instant 2024 1 1 10 0 0) (no_faults []))) = False \<and>
   d_rotation_h (projr (fst (daily_file_sink_ctor utc default_daily_calc_filename ''daily.txt'' 23 59
       (instant 2024 1 1 10 0 0) (instant 2024 1 1 10 0 0) (no_faults [])))) = 23 \<and>
   d_rotation_m (projr (fst (daily_file_sink_ctor utc default_daily_calc_filename ''daily.txt'' 23 59
       (instant 2024 1 1 10 0 0) (instant 2024 1 1 10 0 0) (no_faults [])))) = 59"
proof -
  let ?t = "instant 2024 1 1 10 0 0"
  have bad: "(24::int) < 0 \<or> (24::int) > 23 \<or> (0::int) < 0 \<or> (0::int) > 59"
    by simp
  note t1 = daily_ctor_rejects_invalid_rotation_time
    [where rotation_hour = 24 and rotation_minute = 0 and z = utc
      and FileNameCalc = default_daily_calc_filename and filename = "''daily.txt''"
      and ?now1.0 = ?t and ?now2.0 = ?t and os = "no_faults []" and base_filename = "''daily''"
      and extension = "''txt''"]
  note t2 = daily_ctor_rejects_invalid_rotation_time
    [where rotation_hour = 23 and rotation_minute = 59 and z = utc
      and FileNameCalc = default_daily_calc_filename and filename = "''daily.txt''"
      and ?now1.0 = ?t and ?now2.0 = ?t and os = "no_faults []" and base_filename = "''daily''"
      and extension = "''txt''"]
  obtain s os' where ok: "daily_file_sink_ctor utc default_daily_calc_filename ''daily.txt'' 23 59 ?t ?t
      (no_faults []) = (Inr s, os')"
    by (cases "daily_split ''daily.txt''")
      (simp add: daily_file_sink_ctor_def Let_def fh_open_def no_faults_def)
  from t2 ok have hm: "d_rotation_h s = 23" "d_rotation_m s = 59"
    by blast+
  have e: "calls (no_faults []) = []" "files (no_faults []) = Map.empty"
    by (simp_all add: no_faults_def)
  from t1 bad have rej:
    "daily_file_sink_ctor utc default_daily_calc_filename ''daily.txt'' 24 0 ?t ?t (no_faults []) =
       (Inl (Spdlog_ex ''daily_file_sink: Invalid rotation time in ctor''), no_faults [])"
    "daily_file_sink_ctor2 utc default_daily_calc_filename ''daily'' ''txt'' 24 0 ?t ?t (no_faults []) =
       (Inl (Spdlog_ex ''daily_file_sink: Invalid rotation time in ctor''), no_faults [])"
    by blast+
  show ?thesis
    using bad hm e by (simp add: ok rej)
qed

text \<open>
  C7 (amended). After a write that returns normally and rotated, \<open>_current_size\<close> is the
  length of the record just written; \<open>_current_size \<le> _max_size\<close> holds after every write
  that returns normally of a record no longer than \<open>_max_size\<close>.
\<close>

theorem current_size_within_max_for_fitting_records:
  assumes "rotating_sink_it s msg os = (None, s', os')"
  shows "r_max_size s' = r_max_size s \<and>
         (r_max_size s < r_current_size s + msg_size msg \<longrightarrow> r_current_size s' = msg_size msg) \<and>
         (msg_size msg \<le> r_max_size s \<longrightarrow> r_current_size s' \<le> r_max_size s')"
proof (cases "r_max_size s < r_current_size s + msg_size msg")
  case True
  let ?s1 = "s\<lparr>r_current_size := r_current_size s + msg_size msg\<rparr>"
  from True assms obtain s2 os2 where rot: "rotate ?s1 os = (None, s2, os2)"
    and w: "rotating_write (s2\<lparr>r_current_size := msg_size msg\<rparr>) msg os2 = (None, s', os')"
    by (auto simp: rotating_sink_it_def Let_def split: prod.splits option.splits)
  from rot have "r_max_size s2 = r_max_size s"
    by (auto simp: rotate_def Let_def split: prod.splits option.splits)
  moreover from w have "s' = s2\<lparr>r_current_size := msg_size msg\<rparr>"
    by (auto simp: rotating_write_def split: prod.splits)
  ultimately show ?thesis
    using True by simp
next
  case False
  with assms have "s' = s\<lparr>r_current_size := r_current_size s + msg_size msg\<rparr>"
    by (auto simp: rotating_sink_it_def Let_def rotating_write_def split: prod.splits)
  with False show ?thesis by auto
qed

theorem current_size_within_max_for_fitting_records_witness:
  "rotating_sink_it app_sink ''0123456'' app_os =
     (fst (rotating_sink_it app_sink ''0123456'' app_os),
      fst (snd (rotating_sink_it app_sink ''0123456'' app_os)),
      snd (snd (rotating_sink_it app_sink ''0123456'' app_os))) \<and>
   fst (rotating_sink_it app_sink ''0123456'' app_os) = None \<and>
   r_max_size app_sink < r_current_size app_sink + msg_size ''0123456'' \<and>
   msg_size ''0123456'' \<le> r_max_size app_sink \<and>
   r_current_size (fst (snd (rotating_sink_it app_sink ''0123456'' app_os))) = 7 \<and>
   r_max_size (fst (snd (rotating_sink_it app_sink ''0123456'' app_os))) = 16"
proof -
  obtain s' os' where res: "rotating_sink_it app_sink ''0123456'' app_os = (None, s', os')"
    by (simp add: eval_defs)
  have pre: "r_max_size app_sink < r_current_size app_sink + msg_size ''0123456''"
    "msg_size ''0123456'' \<le> r_max_size app_sink" "msg_size ''0123456'' = 7"
    "r_max_size app_sink = 16"
    by (simp_all add: eval_defs)
  from current_size_within_max_for_fitting_records [OF res] pre
  have "r_current_size s' = 7" "r_max_size s' = 16"
    by simp_all
  with pre show ?thesis
    by (simp add: res)
qed

text \<open>
  C7 as stated fails for a record longer than \<open>_max_size\<close>: with \<open>_max_size = 16\<close> a
  record of 20 bytes triggers a rotation and leaves \<open>_current_size = 20\<close>.
\<close>

theorem current_size_exceeds_max_after_rotation:
  "fst (rotating_sink_it app_sink ''01234567890123456789'' app_os) = None \<and>
   r_max_size app_sink < r_current_size app_sink + msg_size ''01234567890123456789'' \<and>
   \<not> r_current_size (fst (snd (rotating_sink_it app_sink ''01234567890123456789'' app_os)))
       \<le> r_max_size (fst (snd (rotating_sink_it app_sink ''01234567890123456789'' app_os)))"
  by (simp add: eval_defs)


text \<open>
  C10. With \<open>_max_files = 0\<close> a rotation issues one call, the truncating reopen of the
  helper's file: no delete, no rename. When the reopen succeeds that file is empty and
  every other path is as before. A write that exceeds \<open>_max_size\<close> then leaves the record
  as the whole content of the active file.
\<close>

theorem rotate_without_backups:
  assumes "r_max_files s = 0"
  shows "(\<forall>ex s' os'. rotate s os = (ex, s', os') \<longrightarrow>
            calls os' = calls os @ [Sys_open (fh_filename (r_file_helper s)) True] \<and>
            files os' = (if ex = None then (files os)(fh_filename (r_file_helper s) \<mapsto> [])
                         else files os)) \<and>
         (rotating_inv s \<and> r_max_size s < r_current_size s + msg_size msg \<and>
          open_fails os (indexed s 0) = 0 \<longrightarrow>
            rotating_sink_it s msg os =
              (None, s\<lparr>r_current_size := msg_size msg\<rparr>,
               os\<lparr>files := (files os)(indexed s 0 \<mapsto> msg),
                  calls := calls os @ [Sys_open (indexed s 0) True, Sys_write (indexed s 0) msg]\<rparr>))"
proof (intro conjI allI impI)
  fix ex s' os'
  assume "rotate s os = (ex, s', os')"
  with assms show "calls os' = calls os @ [Sys_open (fh_filename (r_file_helper s)) True]"
    by (auto simp: rotate_def fh_reopen_def fh_open_def fh_close_def Let_def split: if_splits)
next
  fix ex s' os'
  assume "rotate s os = (ex, s', os')"
  with assms show "files os' = (if ex = None then (files os)(fh_filename (r_file_helper s) \<mapsto> [])
                         else files os)"
    by (auto simp: rotate_def fh_reopen_def fh_open_def fh_close_def Let_def split: if_splits)
next
  assume a: "rotating_inv s \<and> r_max_size s < r_current_size s + msg_size msg \<and>
          open_fails os (indexed s 0) = 0"
  then have name: "fh_filename (r_file_helper s) = indexed s 0" and op: "fh_is_open (r_file_helper s)"
    by (simp_all add: rotating_inv_def indexed_def)
  have fh: "r_file_helper s\<lparr>fh_is_open := False, fh_filename := indexed s 0, fh_is_open := True\<rparr> =
      r_file_helper s"
    using name op by (cases "r_file_helper s") simp
  show "rotating_sink_it s msg os =
      (None, s\<lparr>r_current_size := msg_size msg\<rparr>,
       os\<lparr>files := (files os)(indexed s 0 \<mapsto> msg),
          calls := calls os @ [Sys_open (indexed s 0) True, Sys_write (indexed s 0) msg]\<rparr>)"
    using a assms name op fh
    by (simp add: rotating_sink_it_def rotate_def fh_reopen_def fh_open_def fh_close_def Let_def
        rotating_write_def fh_write_def)
qed

theorem rotate_without_backups_witness:
  "r_max_files (app_sink\<lparr>r_max_files := 0\<rparr>) = 0 \<and>
   rotating_inv (app_sink\<lparr>r_max_files := 0\<rparr>) \<and>
   r_max_size (app_sink\<lparr>r_max_files := 0\<rparr>) <
     r_current_size (app_sink\<lparr>r_max_files := 0\<rparr>) + msg_size ''0123456'' \<and>
   open_fails app_os (indexed (app_sink\<lparr>r_max_files := 0\<rparr>) 0) = 0 \<and>
   calls (snd (snd (rotate (app_sink\<lparr>r_max_files := 0\<rparr>) app_os))) = [Sys_open ''app.log'' True] \<and>
   files (snd (snd (rotate (app_sink\<lparr>r_max_files := 0\<rparr>) app_os))) = (files app_os)(''app.log'' \<mapsto> []) \<and>
   rotating_sink_it (app_sink\<lparr>r_max_files := 0\<rparr>) ''0123456'' app_os =
     (None, app_sink\<lparr>r_max_files := 0, r_current_size := 7\<rparr>,
      app_os\<lparr>files := (files app_os)(''app.log'' \<mapsto> ''0123456''),
         calls := [Sys_open ''app.log'' True, Sys_write ''app.log'' ''0123456'']\<rparr>)"
proof -
  let ?s = "app_sink\<lparr>r_max_files := 0\<rparr>"
  have z: "r_max_files ?s = 0" by simp
  have pre: "rotating_inv ?s \<and> r_max_size ?s < r_current_size ?s + msg_size ''0123456'' \<and>
      open_fails app_os (indexed ?s 0) = 0"
    by (simp add: eval_defs)
  obtain ex s' os' where rot: "rotate ?s app_os = (ex, s', os')"
    by (cases "rotate ?s app_os") auto
  have none: "ex = None"
    using rot by (simp add: eval_defs)
  have facts: "fh_filename (r_file_helper ?s) = ''app.log''" "indexed ?s 0 = ''app.log''"
    "calls app_os = []" "msg_size ''0123456'' = 7"
    by (simp_all add: eval_defs)
  note t = rotate_without_backups [OF z, of app_os "''0123456''"]
  from t rot none facts have one: "calls os' = [Sys_open ''app.log'' True]"
    "files os' = (files app_os)(''app.log'' \<mapsto> [])"
    by simp_all
  from t pre facts have two: "rotating_sink_it ?s ''0123456'' app_os =
     (None, app_sink\<lparr>r_max_files := 0, r_current_size := 7\<rparr>,
      app_os\<lparr>files := (files app_os)(''app.log'' \<mapsto> ''0123456''),
         calls := [Sys_open ''app.log'' True, Sys_write ''app.log'' ''0123456'']\<rparr>)"
    by simp
  show ?thesis
    using z pre one two by (simp add: rot)
qed


end
